theory Spec2Isabelle
  imports Main "HOL-Library.Word"
begin


section \<open>Data model of hashi.c\<close>

text \<open>
  The C enum \<open>direction\<close> with \<open>UP = 0, LEFT, RIGHT, DOWN\<close>; \<open>DIRECTIONS\<close> is 4.
  \<open>dir_succ\<close> is \<open>++dir\<close>, with \<open>None\<close> for the value \<open>DIRECTIONS\<close>.
\<close>

datatype direction = UP | LEFT | RIGHT | DOWN

fun dir_succ :: "direction \<Rightarrow> direction option" where
  "dir_succ UP = Some LEFT"
| "dir_succ LEFT = Some RIGHT"
| "dir_succ RIGHT = Some DOWN"
| "dir_succ DOWN = None"

text \<open>
  Pointers into the board. An island pointer is either \<open>board->out_island\<close> or
  \<open>board->islands + i\<close>; a connection pointer is either \<open>board->out_connection\<close> or
  \<open>board->connections + k\<close>. The pointers \<open>char *ppendbridges1/2\<close> address the
  \<open>pendbridges\<close> field of an island and are island references; \<open>char *pbridges\<close>
  of a cross element addresses the \<open>bridges\<close> field of a connection and is a
  connection reference.
\<close>

datatype iref = OutI | Isl nat
datatype cref = OutC | Conn nat

text \<open>
  Plain \<open>char\<close> is an 8-bit word; comparisons read it signed (\<open>sint\<close>).
  The linked list of \<open>hcrosselem\<close> hanging from \<open>firstcross\<close> is the list of the
  \<open>pbridges\<close> pointers of its elements, first element first;
  \<open>insert_crosselem\<close> is \<open>#\<close>.
\<close>

type_synonym cchar = "8 word"

record hconnection =
  bridges :: cchar
  firstcross :: "cref list"
  ppendbridges1 :: iref
  ppendbridges2 :: iref

record hisland =
  pendbridges :: cchar
  expectbridges :: cchar
  row :: cchar
  col :: cchar
  isl_islands :: "direction \<Rightarrow> iref"
  isl_connections :: "direction \<Rightarrow> cref"

text \<open>
  The board. The arrays \<open>islands\<close>, \<open>connections\<close> and \<open>visitedmatrix\<close> are
  C arrays: functions from the index, with their sizes in separate fields as in
  the source. Of the \<open>crosselems\<close> arena only the counters are kept.
\<close>

record hboard =
  max_islands :: nat
  num_islands :: nat
  max_connections :: nat
  num_connections :: nat
  max_crosselems :: nat
  num_crosselems :: nat
  rows :: int
  cols :: int
  max_bridges :: "32 word"
  max_visited_size :: int
  visitedlimit :: int
  visitedmatrix :: "int \<Rightarrow> bool"
  islands :: "nat \<Rightarrow> hisland"
  out_island_st :: hisland
  connections :: "nat \<Rightarrow> hconnection"
  out_connection_st :: hconnection

definition get_island :: "hboard \<Rightarrow> iref \<Rightarrow> hisland" where
  "get_island b r = (case r of OutI \<Rightarrow> out_island_st b | Isl i \<Rightarrow> islands b i)"

definition upd_island :: "hboard \<Rightarrow> iref \<Rightarrow> (hisland \<Rightarrow> hisland) \<Rightarrow> hboard" where
  "upd_island b r f =
     (case r of
        OutI \<Rightarrow> b\<lparr>out_island_st := f (out_island_st b)\<rparr>
      | Isl i \<Rightarrow> b\<lparr>islands := (islands b)(i := f (islands b i))\<rparr>)"

definition get_connection :: "hboard \<Rightarrow> cref \<Rightarrow> hconnection" where
  "get_connection b c = (case c of OutC \<Rightarrow> out_connection_st b | Conn k \<Rightarrow> connections b k)"

definition upd_connection :: "hboard \<Rightarrow> cref \<Rightarrow> (hconnection \<Rightarrow> hconnection) \<Rightarrow> hboard" where
  "upd_connection b c f =
     (case c of
        OutC \<Rightarrow> b\<lparr>out_connection_st := f (out_connection_st b)\<rparr>
      | Conn k \<Rightarrow> b\<lparr>connections := (connections b)(k := f (connections b k))\<rparr>)"


section \<open>Bridge constraint engine\<close>

text \<open>
  The loop of \<open>add_bridge\<close> over the cross elements of a connection: true when some
  crossing connection carries a bridge (the loop's early \<open>return false\<close>).
\<close>

fun cross_busy :: "hboard \<Rightarrow> cref list \<Rightarrow> bool" where
  "cross_busy b [] = False"
| "cross_busy b (x # xs) =
     (if bridges (get_connection b x) \<noteq> 0 then True else cross_busy b xs)"

text \<open>\<open>add_bridge\<close>: \<open>MAX_CONNECTION_BRIDGES\<close> is 2. The result is the returned
  flag and the board after the call.\<close>

definition add_bridge :: "hboard \<Rightarrow> cref \<Rightarrow> bool \<times> hboard" where
  "add_bridge b c =
     (if 2 \<le> sint (bridges (get_connection b c)) then (False, b)
      else if pendbridges (get_island b (ppendbridges1 (get_connection b c))) \<noteq> 0
            \<and> pendbridges (get_island b (ppendbridges2 (get_connection b c))) \<noteq> 0
      then
        (if cross_busy b (firstcross (get_connection b c)) then (False, b)
         else
           let b1 = upd_connection b c (\<lambda>x. x\<lparr>bridges := bridges x + 1\<rparr>);
               b2 = upd_island b1 (ppendbridges1 (get_connection b1 c))
                      (\<lambda>x. x\<lparr>pendbridges := pendbridges x - 1\<rparr>);
               b3 = upd_island b2 (ppendbridges2 (get_connection b2 c))
                      (\<lambda>x. x\<lparr>pendbridges := pendbridges x - 1\<rparr>)
           in (True, b3))
      else (False, b))"

definition del_bridge :: "hboard \<Rightarrow> cref \<Rightarrow> bool \<times> hboard" where
  "del_bridge b c =
     (if bridges (get_connection b c) \<noteq> 0 then
        let b1 = upd_connection b c (\<lambda>x. x\<lparr>bridges := bridges x - 1\<rparr>);
            b2 = upd_island b1 (ppendbridges1 (get_connection b1 c))
                   (\<lambda>x. x\<lparr>pendbridges := pendbridges x + 1\<rparr>);
            b3 = upd_island b2 (ppendbridges2 (get_connection b2 c))
                   (\<lambda>x. x\<lparr>pendbridges := pendbridges x + 1\<rparr>)
        in (True, b3)
      else (False, b))"

text \<open>
  The ranges of the data model around a connection: its bridge count is 0, 1 or 2,
  no crossing connection has a negative count, the pending counts of its endpoints
  are within 0..8, and a connection whose two endpoints are one island (the outside
  connection) is empty between islands without pending bridges.
\<close>

definition conn_in_range :: "hboard \<Rightarrow> cref \<Rightarrow> bool" where
  "conn_in_range b c \<longleftrightarrow>
     0 \<le> sint (bridges (get_connection b c)) \<and> sint (bridges (get_connection b c)) \<le> 2
     \<and> (\<forall>x \<in> set (firstcross (get_connection b c)). 0 \<le> sint (bridges (get_connection b x)))
     \<and> 0 \<le> sint (pendbridges (get_island b (ppendbridges1 (get_connection b c))))
     \<and> sint (pendbridges (get_island b (ppendbridges1 (get_connection b c)))) \<le> 8
     \<and> 0 \<le> sint (pendbridges (get_island b (ppendbridges2 (get_connection b c))))
     \<and> sint (pendbridges (get_island b (ppendbridges2 (get_connection b c)))) \<le> 8
     \<and> (ppendbridges1 (get_connection b c) = ppendbridges2 (get_connection b c) \<longrightarrow>
           bridges (get_connection b c) = 0
           \<and> pendbridges (get_island b (ppendbridges1 (get_connection b c))) = 0)"

text \<open>
  \<open>bridge_moved b c n b'\<close>: board \<open>b'\<close> is board \<open>b\<close> with \<open>n\<close> more bridges on
  connection \<open>c\<close> and \<open>n\<close> fewer pending bridges on both its endpoints, and no
  other difference.
\<close>

definition bridge_moved :: "hboard \<Rightarrow> cref \<Rightarrow> int \<Rightarrow> hboard \<Rightarrow> bool" where
  "bridge_moved b c n b' \<longleftrightarrow>
     sint (bridges (get_connection b' c)) = sint (bridges (get_connection b c)) + n
     \<and> get_connection b' c = (get_connection b c)\<lparr>bridges := bridges (get_connection b' c)\<rparr>
     \<and> (\<forall>c'. c' \<noteq> c \<longrightarrow> get_connection b' c' = get_connection b c')
     \<and> (\<forall>r. r = ppendbridges1 (get_connection b c) \<or> r = ppendbridges2 (get_connection b c) \<longrightarrow>
            sint (pendbridges (get_island b' r)) = sint (pendbridges (get_island b r)) - n
            \<and> get_island b' r = (get_island b r)\<lparr>pendbridges := pendbridges (get_island b' r)\<rparr>)
     \<and> (\<forall>r. r \<noteq> ppendbridges1 (get_connection b c) \<and> r \<noteq> ppendbridges2 (get_connection b c) \<longrightarrow>
            get_island b' r = get_island b r)
     \<and> b'\<lparr>islands := islands b, out_island_st := out_island_st b,
            connections := connections b, out_connection_st := out_connection_st b\<rparr> = b"

subsection \<open>Frame facts used by the termination proofs\<close>

lemma get_connection_upd_island [simp]:
  "get_connection (upd_island b r f) c = get_connection b c"
  by (simp add: get_connection_def upd_island_def split: iref.split cref.split)

lemma get_connection_upd_connection_same [simp]:
  "get_connection (upd_connection b c f) c = f (get_connection b c)"
  by (simp add: get_connection_def upd_connection_def split: cref.split)

lemma get_connection_upd_connection_other:
  "c' \<noteq> c \<Longrightarrow> get_connection (upd_connection b c f) c' = get_connection b c'"
  by (auto simp: get_connection_def upd_connection_def split: cref.split)

lemma get_island_upd_connection [simp]:
  "get_island (upd_connection b c f) r = get_island b r"
  by (simp add: get_island_def upd_connection_def split: iref.split cref.split)

lemma get_island_upd_island_same [simp]:
  "get_island (upd_island b r f) r = f (get_island b r)"
  by (simp add: get_island_def upd_island_def split: iref.split)

lemma get_island_upd_island_other:
  "r' \<noteq> r \<Longrightarrow> get_island (upd_island b r f) r' = get_island b r'"
  by (auto simp: get_island_def upd_island_def split: iref.split)

lemma isl_connections_upd_island_pend [simp]:
  "isl_connections (get_island (upd_island b r (\<lambda>x. x\<lparr>pendbridges := g x\<rparr>)) r')
     = isl_connections (get_island b r')"
  by (cases "r' = r") (simp_all add: get_island_upd_island_other)

lemma add_bridge_isl_connections:
  "add_bridge b c = (ok, b') \<Longrightarrow>
     isl_connections (get_island b' r) = isl_connections (get_island b r)"
  by (auto simp: add_bridge_def Let_def split: if_splits)

lemma del_bridge_isl_connections:
  "del_bridge b c = (ok, b') \<Longrightarrow>
     isl_connections (get_island b' r) = isl_connections (get_island b r)"
  by (auto simp: del_bridge_def Let_def split: if_splits)

lemma sint_succ_below_2:
  fixes w :: cchar
  assumes "\<not> 2 \<le> sint w"
  shows "sint (w + 1) = sint w + 1"
proof -
  have "- 128 \<le> sint w" using sint_ge [of w] by simp
  with assms have "signed_take_bit 7 (sint w + 1) = sint w + 1"
    by (intro signed_take_bit_int_eq_self) simp_all
  then show ?thesis by (simp add: sint_word_ariths)
qed

lemma add_bridge_True_bridges:
  assumes "add_bridge b c = (True, b')"
  shows "sint (bridges (get_connection b' c)) = sint (bridges (get_connection b c)) + 1"
    and "sint (bridges (get_connection b c)) < 2"
  using assms by (auto simp: add_bridge_def Let_def sint_succ_below_2 split: if_splits)

lemma add_bridge_False: "add_bridge b c = (False, b') \<Longrightarrow> b' = b"
  by (auto simp: add_bridge_def Let_def split: if_splits)

lemma del_bridge_False: "del_bridge b c = (False, b') \<Longrightarrow> b' = b"
  by (auto simp: del_bridge_def Let_def split: if_splits)

lemma del_bridge_True_bridges:
  assumes "del_bridge b c = (True, b')"
  shows "unat (bridges (get_connection b' c)) < unat (bridges (get_connection b c))"
  using assms
  by (auto simp: del_bridge_def Let_def unat_minus_one unat_gt_0 split: if_splits)

section \<open>Backtracking solver: one island\<close>

text \<open>
  The first loop of \<open>fill_bridges\<close>: \<open>dir\<close> starts at \<open>RIGHT\<close>; a failed
  \<open>add_bridge\<close> moves to the next direction, and \<open>++dir == DIRECTIONS\<close> leaves the loop.
\<close>

function fill_loop :: "hboard \<Rightarrow> iref \<Rightarrow> direction \<Rightarrow> hboard" where
  "fill_loop b island dir =
     (if pendbridges (get_island b island) \<noteq> 0 then
        (case add_bridge b (isl_connections (get_island b island) dir) of
           (True, b') \<Rightarrow> fill_loop b' island dir
         | (False, b') \<Rightarrow>
             (case dir_succ dir of
                None \<Rightarrow> b'
              | Some dir' \<Rightarrow> fill_loop b' island dir'))
      else b)"
  by pat_completeness auto

fun dirs_left :: "direction \<Rightarrow> nat" where
  "dirs_left UP = 3"
| "dirs_left LEFT = 2"
| "dirs_left RIGHT = 1"
| "dirs_left DOWN = 0"

termination fill_loop
proof (relation "measures [\<lambda>(b, island, dir). dirs_left dir,
    \<lambda>(b, island, dir). nat (2 - sint (bridges (get_connection b
        (isl_connections (get_island b island) dir))))]", goal_cases)
  case 1
  show ?case by simp
next
  case (2 b island dir x y)
  then have a: "add_bridge b (isl_connections (get_island b island) dir) = (True, y)"
    by simp
  show ?case
    using add_bridge_True_bridges [OF a] add_bridge_isl_connections [OF a]
    by simp
next
  case (3 b island dir x y dir')
  then show ?case by (cases dir) simp_all
qed

declare fill_loop.simps [simp del]

text \<open>The loops \<open>while (del_bridge(island->connections[dir]));\<close>.\<close>

function del_loop :: "hboard \<Rightarrow> iref \<Rightarrow> direction \<Rightarrow> hboard" where
  "del_loop b island dir =
     (case del_bridge b (isl_connections (get_island b island) dir) of
        (True, b') \<Rightarrow> del_loop b' island dir
      | (False, b') \<Rightarrow> b')"
  by pat_completeness auto

termination del_loop
proof (relation "measure (\<lambda>(b, island, dir). unat (bridges (get_connection b
        (isl_connections (get_island b island) dir))))", goal_cases)
  case 1
  show ?case by simp
next
  case (2 b island dir x y)
  then have a: "del_bridge b (isl_connections (get_island b island) dir) = (True, y)"
    by simp
  show ?case
    using del_bridge_True_bridges [OF a] del_bridge_isl_connections [OF a]
    by simp
qed

declare del_loop.simps [simp del]

definition fill_bridges :: "hboard \<Rightarrow> iref \<Rightarrow> bool \<times> hboard" where
  "fill_bridges b island =
     (let b1 = fill_loop b island RIGHT in
      if pendbridges (get_island b1 island) \<noteq> 0 then
        (False, del_loop (del_loop b1 island RIGHT) island DOWN)
      else (True, b1))"

definition reorder_bridges :: "hboard \<Rightarrow> iref \<Rightarrow> bool \<times> hboard" where
  "reorder_bridges b island =
     (case del_bridge b (isl_connections (get_island b island) RIGHT) of
        (True, b1) \<Rightarrow>
          (case add_bridge b1 (isl_connections (get_island b1 island) DOWN) of
             (True, b2) \<Rightarrow> (True, b2)
           | (False, b2) \<Rightarrow> (False, del_loop (del_loop b2 island RIGHT) island DOWN))
      | (False, b1) \<Rightarrow> (False, del_loop b1 island DOWN))"


section \<open>Board model and graph builder\<close>

text \<open>
  \<open>init_out_island\<close> stores \<open>NULL\<close> in the direction slots of the outside island.
  No function reads them (every reader tests \<open>island != board->out_island\<close> first);
  the model has no null reference and keeps the outside references there.
\<close>

definition init_out_island :: "hisland \<Rightarrow> hisland" where
  "init_out_island x =
     x\<lparr>row := - 1, col := - 1, pendbridges := 0, expectbridges := 0,
       isl_islands := (\<lambda>_. OutI), isl_connections := (\<lambda>_. OutC)\<rparr>"

definition init_out_connection :: "hconnection \<Rightarrow> hconnection" where
  "init_out_connection x =
     x\<lparr>bridges := 0, firstcross := [], ppendbridges1 := OutI, ppendbridges2 := OutI\<rparr>"

text \<open>
  \<open>init_board\<close> writes into the struct it is given and leaves \<open>max_bridges\<close> and
  \<open>visitedlimit\<close> as they were; \<open>memset\<close> clears the first \<open>max_visited_size\<close>
  cells of the visited matrix.
\<close>

definition init_board ::
  "hboard \<Rightarrow> (nat \<Rightarrow> hisland) \<Rightarrow> nat \<Rightarrow> (nat \<Rightarrow> hconnection) \<Rightarrow> nat \<Rightarrow> nat
     \<Rightarrow> (int \<Rightarrow> bool) \<Rightarrow> int \<Rightarrow> hboard" where
  "init_board board isls max_isls conns max_conns max_cross vm max_vs =
     board\<lparr>islands := isls, max_islands := max_isls,
           connections := conns, max_connections := max_conns,
           max_crosselems := max_cross,
           visitedmatrix := (\<lambda>p. if 0 \<le> p \<and> p < max_vs then False else vm p),
           max_visited_size := max_vs,
           num_islands := 0, num_connections := 0, num_crosselems := 0,
           rows := 0, cols := 0,
           out_island_st := init_out_island (out_island_st board),
           out_connection_st := init_out_connection (out_connection_st board)\<rparr>"

text \<open>
  The backward scan of \<open>find_from_island\<close> for \<open>UP\<close>: \<open>while (--index > -1)\<close>,
  returning the first island met in the column.
\<close>

fun find_up_loop :: "hboard \<Rightarrow> cchar \<Rightarrow> nat \<Rightarrow> iref" where
  "find_up_loop b c 0 = OutI"
| "find_up_loop b c (Suc k) =
     (if col (islands b k) = c then Isl k else find_up_loop b c k)"

text \<open>
  \<open>find_from_island\<close>; \<open>None\<close> is the \<open>NULL\<close> it returns for a bad index or
  direction. The \<open>LEFT\<close> loop leaves in its first round: the island before is in
  an earlier row (\<open>break\<close>) or it is returned.
\<close>

definition find_from_island :: "hboard \<Rightarrow> int \<Rightarrow> direction \<Rightarrow> iref option" where
  "find_from_island b index dir =
     (if index < 0 \<or> index \<ge> int (num_islands b) then None
      else
        let start = islands b (nat index) in
        (case dir of
           LEFT \<Rightarrow>
             (if index - 1 > - 1 then
                (if sint (row (islands b (nat (index - 1)))) < sint (row start)
                 then Some OutI
                 else Some (Isl (nat (index - 1))))
              else Some OutI)
         | UP \<Rightarrow> Some (find_up_loop b (col start) (nat index))
         | _ \<Rightarrow> None))"

text \<open>The arena allocators; \<open>None\<close> when the arena is full.\<close>

definition next_island :: "hboard \<Rightarrow> (iref \<times> hboard) option" where
  "next_island b =
     (if num_islands b \<ge> max_islands b then None
      else Some (Isl (num_islands b), b\<lparr>num_islands := num_islands b + 1\<rparr>))"

definition next_connection :: "hboard \<Rightarrow> (cref \<times> hboard) option" where
  "next_connection b =
     (if num_connections b \<ge> max_connections b then None
      else Some (Conn (num_connections b), b\<lparr>num_connections := num_connections b + 1\<rparr>))"

definition next_crosselem :: "hboard \<Rightarrow> hboard option" where
  "next_crosselem b =
     (if num_crosselems b \<ge> max_crosselems b then None
      else Some (b\<lparr>num_crosselems := num_crosselems b + 1\<rparr>))"

text \<open>\<open>insert_crosselem\<close> of a cross element whose \<open>pbridges\<close> is \<open>x\<close>.\<close>

definition insert_crosselem :: "hboard \<Rightarrow> cref \<Rightarrow> cref \<Rightarrow> hboard" where
  "insert_crosselem b connection x =
     upd_connection b connection (\<lambda>c. c\<lparr>firstcross := x # firstcross c\<rparr>)"

text \<open>
  The loop of \<open>fill_crosses\<close> over the islands \<open>up + 1, ..., down - 1\<close>, by their
  indices. \<open>None\<close> is \<open>return false\<close>; a pointer that has passed \<open>down\<close> never
  meets it, and has no result either.
\<close>

function fill_crosses_loop ::
  "hboard \<Rightarrow> nat \<Rightarrow> nat \<Rightarrow> int \<Rightarrow> cref \<Rightarrow> nat \<Rightarrow> hboard option" where
  "fill_crosses_loop b up down c conn_vert island =
     (if island = down then Some b
      else if island > down then None
      else if sint (row (islands b island)) > sint (row (islands b up))
              \<and> sint (row (islands b island)) < sint (row (islands b down))
              \<and> sint (col (islands b island)) < c
      then
        (let right = isl_islands (islands b island) RIGHT in
         if right \<noteq> OutI \<and> sint (col (get_island b right)) > c then
           (let conn_horz = isl_connections (islands b island) RIGHT in
            case next_crosselem b of
              None \<Rightarrow> None
            | Some b1 \<Rightarrow>
                (case next_crosselem (insert_crosselem b1 conn_horz conn_vert) of
                   None \<Rightarrow> None
                 | Some b2 \<Rightarrow>
                     fill_crosses_loop (insert_crosselem b2 conn_vert conn_horz)
                       up down c conn_vert (island + 1)))
         else fill_crosses_loop b up down c conn_vert (island + 1))
      else fill_crosses_loop b up down c conn_vert (island + 1))"
  by pat_completeness auto
termination
  by (relation "measure (\<lambda>(b, up, down, c, conn_vert, island). down - island)") auto

declare fill_crosses_loop.simps [simp del]

definition fill_crosses :: "hboard \<Rightarrow> nat \<Rightarrow> nat \<Rightarrow> hboard option" where
  "fill_crosses b up down =
     fill_crosses_loop b up down (sint (col (islands b up)))
       (isl_connections (islands b up) DOWN) (up + 1)"

text \<open>
  \<open>fill_connections\<close>. A \<open>NULL\<close> from \<open>find_from_island\<close> would be dereferenced;
  it is \<open>None\<close> here, as is \<open>return false\<close>.
\<close>

definition new_connection :: "iref \<Rightarrow> iref \<Rightarrow> hconnection \<Rightarrow> hconnection" where
  "new_connection p1 p2 x =
     x\<lparr>bridges := 0, firstcross := [], ppendbridges1 := p1, ppendbridges2 := p2\<rparr>"

definition set_isl_island :: "hboard \<Rightarrow> iref \<Rightarrow> direction \<Rightarrow> iref \<Rightarrow> hboard" where
  "set_isl_island b r d v = upd_island b r (\<lambda>x. x\<lparr>isl_islands := (isl_islands x)(d := v)\<rparr>)"

definition set_isl_connection :: "hboard \<Rightarrow> iref \<Rightarrow> direction \<Rightarrow> cref \<Rightarrow> hboard" where
  "set_isl_connection b r d v =
     upd_island b r (\<lambda>x. x\<lparr>isl_connections := (isl_connections x)(d := v)\<rparr>)"

definition connect_left :: "hboard \<Rightarrow> iref \<Rightarrow> iref \<Rightarrow> hboard option" where
  "connect_left b island left =
     (if left \<noteq> OutI then
        (case next_connection b of
           None \<Rightarrow> None
         | Some (connection, b1) \<Rightarrow>
             Some (set_isl_island
                    (set_isl_connection
                      (set_isl_connection
                        (upd_connection b1 connection (new_connection left island))
                        island LEFT connection)
                      left RIGHT connection)
                    left RIGHT island))
      else Some b)"

definition connect_up :: "hboard \<Rightarrow> nat \<Rightarrow> iref \<Rightarrow> hboard option" where
  "connect_up b index up =
     (case up of
        OutI \<Rightarrow> Some b
      | Isl u \<Rightarrow>
          (case next_connection b of
             None \<Rightarrow> None
           | Some (connection, b1) \<Rightarrow>
               fill_crosses
                 (set_isl_island
                   (set_isl_connection
                     (set_isl_connection
                       (upd_connection b1 connection (new_connection up (Isl index)))
                       (Isl index) UP connection)
                     up DOWN connection)
                   up DOWN (Isl index))
                 u index))"

definition fill_connections :: "hboard \<Rightarrow> hboard option" where
  "fill_connections b =
     (let index = int (num_islands b) - 1;
          island = Isl (nat index);
          b1 = set_isl_island (set_isl_island b island RIGHT OutI) island DOWN OutI
      in
      case find_from_island b1 index LEFT of
        None \<Rightarrow> None
      | Some left \<Rightarrow>
          (let b2 = set_isl_island b1 island LEFT left in
           case find_from_island b2 index UP of
             None \<Rightarrow> None
           | Some up \<Rightarrow>
               (let b3 = set_isl_island b2 island UP up;
                    b4 = upd_island b3 island (\<lambda>x. x\<lparr>isl_connections := (\<lambda>_. OutC)\<rparr>)
                in
                case connect_left b4 island left of
                  None \<Rightarrow> None
                | Some b5 \<Rightarrow> connect_up b5 (nat index) up)))"

text \<open>
  \<open>add_island\<close>; \<open>CHAR_MAX\<close> is 127 and \<open>MAX_EXPECTED_BRIDGES\<close> is 8. \<open>None\<close> is
  \<open>return false\<close>, after which the program exits without using the board.
\<close>

definition add_island :: "hboard \<Rightarrow> int \<Rightarrow> int \<Rightarrow> int \<Rightarrow> hboard option" where
  "add_island b r c expect =
     (if r < 0 \<or> c < 0 then None
      else if r \<ge> 127 then None
      else if c \<ge> 127 then None
      else if num_islands b > 0
              \<and> (r < sint (row (islands b (num_islands b - 1)))
                   \<or> (r = sint (row (islands b (num_islands b - 1)))
                       \<and> c \<le> sint (col (islands b (num_islands b - 1)))))
      then None
      else if expect < 1 \<or> expect > 8 then None
      else
        (case next_island b of
           None \<Rightarrow> None
         | Some (island, b1) \<Rightarrow>
             (let b2 = upd_island b1 island
                         (\<lambda>x. x\<lparr>expectbridges := word_of_int expect,
                                 pendbridges := word_of_int expect,
                                 row := word_of_int r, col := word_of_int c\<rparr>);
                  b3 = (if rows b2 \<le> r then b2\<lparr>rows := r + 1\<rparr> else b2);
                  b4 = (if cols b3 \<le> c then b3\<lparr>cols := c + 1\<rparr> else b3)
              in
              case fill_connections b4 of
                None \<Rightarrow> None
              | Some b5 \<Rightarrow> Some (b5\<lparr>max_bridges := max_bridges b5 + word_of_int expect\<rparr>))))"

text \<open>
  A sequence of \<open>add_island\<close> calls, as \<open>read_islands\<close> makes them for the digits of
  the input: it stops at the first call that fails.
\<close>

fun add_islands :: "hboard \<Rightarrow> (int \<times> int \<times> int) list \<Rightarrow> hboard option" where
  "add_islands b [] = Some b"
| "add_islands b ((r, c, e) # xs) =
     (case add_island b r c e of None \<Rightarrow> None | Some b' \<Rightarrow> add_islands b' xs)"


section \<open>Connectivity verifier\<close>

text \<open>
  \<open>visit_islands\<close> is recursive through the board it mutates; the first argument
  bounds the depth of the recursion, and \<open>None\<close> is a run that needs more depth
  or that indexes the visited matrix outside \<open>0 ..< max_visited_size\<close>.
  \<open>visit_for\<close> is the loop \<open>for (i = 0; i < DIRECTIONS; i++)\<close> over the directions still
  to do, with the running \<open>total\<close>.
\<close>

fun visit_islands :: "nat \<Rightarrow> hboard \<Rightarrow> iref \<Rightarrow> (int \<times> hboard) option"
  and visit_for :: "nat \<Rightarrow> hboard \<Rightarrow> iref \<Rightarrow> direction list \<Rightarrow> int \<Rightarrow> (int \<times> hboard) option"
where
  "visit_islands 0 b island = None"
| "visit_islands (Suc fuel) b island =
     (if island \<noteq> OutI then
        (let pos = sint (row (get_island b island)) * cols b + sint (col (get_island b island)) in
         if pos < 0 \<or> pos \<ge> max_visited_size b then None
         else if \<not> visitedmatrix b pos then
           (let b1 = b\<lparr>visitedmatrix := (visitedmatrix b)(pos := True)\<rparr>;
                b2 = (if pos + 1 > visitedlimit b1 then b1\<lparr>visitedlimit := pos + 1\<rparr> else b1)
            in visit_for fuel b2 island [UP, LEFT, RIGHT, DOWN] 1)
         else Some (0, b))
      else Some (0, b))"
| "visit_for fuel b island [] tot = Some (tot, b)"
| "visit_for fuel b island (i # ds) tot =
     (if bridges (get_connection b (isl_connections (get_island b island) i)) \<noteq> 0 then
        (case visit_islands fuel b (isl_islands (get_island b island) i) of
           None \<Rightarrow> None
         | Some (t, b') \<Rightarrow> visit_for fuel b' island ds (tot + t))
      else visit_for fuel b island ds tot)"

text \<open>
  \<open>check_connected_solution\<close>. The flag \<open>chk\<close> says whether the macro
  \<open>CHECK_CONNECTED_SOLUTION\<close> is defined (the source defines it).
\<close>

definition check_connected_solution :: "bool \<Rightarrow> nat \<Rightarrow> hboard \<Rightarrow> (bool \<times> hboard) option" where
  "check_connected_solution chk fuel b =
     (if chk then
        (case visit_islands fuel (b\<lparr>visitedlimit := 0\<rparr>) (Isl 0) of
           None \<Rightarrow> None
         | Some (tot, b1) \<Rightarrow>
             (let b2 = (if visitedlimit b1 \<noteq> 0 then
                          b1\<lparr>visitedmatrix :=
                               (\<lambda>p. if 0 \<le> p \<and> p < visitedlimit b1 then False
                                    else visitedmatrix b1 p),
                             visitedlimit := 0\<rparr>
                        else b1)
              in if tot \<noteq> int (num_islands b2) then Some (False, b2) else Some (True, b2)))
      else Some (True, b))"

definition valid_visited_matrix_size :: "hboard \<Rightarrow> bool" where
  "valid_visited_matrix_size b = (\<not> max_visited_size b < rows b * cols b)"

section \<open>Backtracking solver: the search\<close>

text \<open>
  What \<open>print_board\<close> shows of a solution: the bridge count of every connection
  of the board, in the order of the connection arena.
\<close>

definition print_board :: "hboard \<Rightarrow> cchar list" where
  "print_board b = map (\<lambda>k. bridges (connections b k)) [0 ..< num_connections b]"

text \<open>
  \<open>find_solutions_from_island\<close> returns the board as the call leaves it and the
  solutions printed during the call, in order. The first argument bounds the depth
  of the recursion (the calls of the function and the rounds of its \<open>while\<close> loop,
  which is \<open>reorder_loop\<close>); \<open>None\<close> is a run that needs more.
\<close>

fun find_solutions_from_island ::
    "bool \<Rightarrow> nat \<Rightarrow> hboard \<Rightarrow> nat \<Rightarrow> (hboard \<times> cchar list list) option"
  and reorder_loop ::
    "bool \<Rightarrow> nat \<Rightarrow> hboard \<Rightarrow> nat \<Rightarrow> (hboard \<times> cchar list list) option"
where
  "find_solutions_from_island chk 0 b idx = None"
| "find_solutions_from_island chk (Suc fuel) b idx =
     (if idx \<ge> num_islands b then
        (case check_connected_solution chk fuel b of
           None \<Rightarrow> None
         | Some (ok, b') \<Rightarrow> Some (b', if ok then [print_board b'] else []))
      else
        (case fill_bridges b (Isl idx) of
           (True, b1) \<Rightarrow>
             (case find_solutions_from_island chk fuel b1 (idx + 1) of
                None \<Rightarrow> None
              | Some (b2, out1) \<Rightarrow>
                  (case reorder_loop chk fuel b2 idx of
                     None \<Rightarrow> None
                   | Some (b3, out2) \<Rightarrow> Some (b3, out1 @ out2)))
         | (False, b1) \<Rightarrow> Some (b1, [])))"
| "reorder_loop chk 0 b idx = None"
| "reorder_loop chk (Suc fuel) b idx =
     (case reorder_bridges b (Isl idx) of
        (True, b1) \<Rightarrow>
          (case find_solutions_from_island chk fuel b1 (idx + 1) of
             None \<Rightarrow> None
           | Some (b2, out1) \<Rightarrow>
               (case reorder_loop chk fuel b2 idx of
                  None \<Rightarrow> None
                | Some (b3, out2) \<Rightarrow> Some (b3, out1 @ out2)))
      | (False, b1) \<Rightarrow> Some (b1, []))"


section \<open>Vocabulary for the properties\<close>

text \<open>
  Row and column of an island as integers, and the slots of the two direction
  arrays of an island.
\<close>

definition row_of :: "hboard \<Rightarrow> nat \<Rightarrow> int" where
  "row_of b i = sint (row (islands b i))"

definition col_of :: "hboard \<Rightarrow> nat \<Rightarrow> int" where
  "col_of b i = sint (col (islands b i))"

definition slot :: "hboard \<Rightarrow> nat \<Rightarrow> direction \<Rightarrow> cref" where
  "slot b i d = isl_connections (islands b i) d"

definition nbr :: "hboard \<Rightarrow> nat \<Rightarrow> direction \<Rightarrow> iref" where
  "nbr b i d = isl_islands (islands b i) d"

text \<open>
  Connection \<open>k\<close> is the horizontal connection from island \<open>i\<close> to the next island
  \<open>j\<close> of its row, wired into the \<open>RIGHT\<close> slots of \<open>i\<close> and the \<open>LEFT\<close> slots of
  \<open>j\<close>; or the vertical connection from \<open>i\<close> down to \<open>j\<close>, the next island of the
  column.
\<close>

definition horizontal :: "hboard \<Rightarrow> nat \<Rightarrow> nat \<Rightarrow> nat \<Rightarrow> bool" where
  "horizontal b k i j \<longleftrightarrow>
     ppendbridges1 (connections b k) = Isl i \<and> ppendbridges2 (connections b k) = Isl j
     \<and> slot b i RIGHT = Conn k \<and> slot b j LEFT = Conn k
     \<and> nbr b i RIGHT = Isl j \<and> nbr b j LEFT = Isl i
     \<and> row_of b i = row_of b j \<and> col_of b i < col_of b j \<and> j = Suc i"

definition vertical :: "hboard \<Rightarrow> nat \<Rightarrow> nat \<Rightarrow> nat \<Rightarrow> bool" where
  "vertical b k i j \<longleftrightarrow>
     ppendbridges1 (connections b k) = Isl i \<and> ppendbridges2 (connections b k) = Isl j
     \<and> slot b i DOWN = Conn k \<and> slot b j UP = Conn k
     \<and> nbr b i DOWN = Isl j \<and> nbr b j UP = Isl i
     \<and> col_of b i = col_of b j \<and> row_of b i < row_of b j \<and> i < j
     \<and> (\<forall>m. i < m \<and> m < j \<longrightarrow> col_of b m \<noteq> col_of b i)"

text \<open>
  The geometric crossing of the spec: the row of the horizontal connection \<open>h\<close> lies
  strictly between the rows of the endpoints of the vertical connection \<open>v\<close>, and
  the column of \<open>v\<close> strictly between the columns of the endpoints of \<open>h\<close>.
\<close>

definition geom_cross :: "hboard \<Rightarrow> nat \<Rightarrow> nat \<Rightarrow> bool" where
  "geom_cross b v h \<longleftrightarrow>
     (\<exists>u d l r. vertical b v u d \<and> horizontal b h l r
        \<and> row_of b u < row_of b l \<and> row_of b l < row_of b d
        \<and> col_of b l < col_of b u \<and> col_of b u < col_of b r)"

text \<open>The parts of the invariant of a board under construction.\<close>

definition sorted_islands :: "hboard \<Rightarrow> bool" where
  "sorted_islands b \<longleftrightarrow>
     (\<forall>i j. i < j \<and> j < num_islands b \<longrightarrow>
        row_of b i < row_of b j \<or> (row_of b i = row_of b j \<and> col_of b i < col_of b j))"

definition in_grid :: "hboard \<Rightarrow> bool" where
  "in_grid b \<longleftrightarrow>
     0 \<le> rows b \<and> rows b \<le> 127 \<and> 0 \<le> cols b \<and> cols b \<le> 127
     \<and> (\<forall>i < num_islands b.
          0 \<le> row_of b i \<and> row_of b i < rows b \<and> 0 \<le> col_of b i \<and> col_of b i < cols b
          \<and> 1 \<le> sint (expectbridges (islands b i)) \<and> sint (expectbridges (islands b i)) \<le> 8)"

definition conns_ok :: "hboard \<Rightarrow> bool" where
  "conns_ok b \<longleftrightarrow>
     (\<forall>k < num_connections b. \<exists>i j. j < num_islands b \<and> (horizontal b k i j \<or> vertical b k i j))"

definition slots_ok :: "hboard \<Rightarrow> bool" where
  "slots_ok b \<longleftrightarrow>
     (\<forall>i < num_islands b.
        (slot b i RIGHT = OutC \<and> nbr b i RIGHT = OutI
           \<or> (\<exists>k j. k < num_connections b \<and> j < num_islands b \<and> horizontal b k i j))
      \<and> (slot b i LEFT = OutC \<and> nbr b i LEFT = OutI
           \<or> (\<exists>k j. k < num_connections b \<and> horizontal b k j i))
      \<and> (slot b i DOWN = OutC \<and> nbr b i DOWN = OutI
           \<or> (\<exists>k j. k < num_connections b \<and> j < num_islands b \<and> vertical b k i j))
      \<and> (slot b i UP = OutC \<and> nbr b i UP = OutI
           \<or> (\<exists>k j. k < num_connections b \<and> vertical b k j i)))"

definition crosses_ok :: "hboard \<Rightarrow> bool" where
  "crosses_ok b \<longleftrightarrow>
     (\<forall>k < num_connections b. \<forall>x \<in> set (firstcross (connections b k)).
        \<exists>k' < num_connections b. x = Conn k' \<and> (geom_cross b k k' \<or> geom_cross b k' k))
     \<and> (\<forall>v < num_connections b. \<forall>h < num_connections b. geom_cross b v h \<longrightarrow>
          Conn h \<in> set (firstcross (connections b v))
          \<and> Conn v \<in> set (firstcross (connections b h)))"

definition outs_ok :: "hboard \<Rightarrow> bool" where
  "outs_ok b \<longleftrightarrow>
     bridges (out_connection_st b) = 0 \<and> firstcross (out_connection_st b) = []
     \<and> ppendbridges1 (out_connection_st b) = OutI \<and> ppendbridges2 (out_connection_st b) = OutI
     \<and> pendbridges (out_island_st b) = 0"

definition fresh_state :: "hboard \<Rightarrow> bool" where
  "fresh_state b \<longleftrightarrow>
     (\<forall>k < num_connections b. bridges (connections b k) = 0)
     \<and> (\<forall>i < num_islands b. pendbridges (islands b i) = expectbridges (islands b i))"

definition board_inv :: "hboard \<Rightarrow> bool" where
  "board_inv b \<longleftrightarrow>
     sorted_islands b \<and> in_grid b \<and> conns_ok b \<and> slots_ok b \<and> crosses_ok b \<and> outs_ok b
     \<and> fresh_state b"

section \<open>Bridge assignments\<close>

text \<open>
  An assignment gives every connection of the arena a number of bridges.
  \<open>cnt\<close> reads it through a connection pointer (nothing on the outside
  connection); \<open>used\<close> is what the four direction slots of an island carry, and
  \<open>incident\<close> what the connections having the island as an endpoint carry.
\<close>

fun cnt :: "(nat \<Rightarrow> nat) \<Rightarrow> cref \<Rightarrow> nat" where
  "cnt a OutC = 0"
| "cnt a (Conn k) = a k"

definition used :: "hboard \<Rightarrow> (nat \<Rightarrow> nat) \<Rightarrow> nat \<Rightarrow> nat" where
  "used b a i = cnt a (slot b i UP) + cnt a (slot b i LEFT) + cnt a (slot b i RIGHT)
                 + cnt a (slot b i DOWN)"

definition incident :: "hboard \<Rightarrow> (nat \<Rightarrow> nat) \<Rightarrow> nat \<Rightarrow> nat" where
  "incident b a i =
     (\<Sum>k < num_connections b.
        if ppendbridges1 (connections b k) = Isl i \<or> ppendbridges2 (connections b k) = Isl i
        then a k else 0)"

definition expected :: "hboard \<Rightarrow> nat \<Rightarrow> nat" where
  "expected b i = nat (sint (expectbridges (islands b i)))"

text \<open>
  The board \<open>b\<close> carrying the assignment \<open>a\<close>: every connection has its bridge count
  from \<open>a\<close>, and every island has as pending count what \<open>a\<close> leaves of its
  expected count.
\<close>

definition load :: "hboard \<Rightarrow> (nat \<Rightarrow> nat) \<Rightarrow> hboard" where
  "load b a =
     b\<lparr>connections :=
         (\<lambda>k. if k < num_connections b then (connections b k)\<lparr>bridges := of_nat (a k)\<rparr>
              else connections b k),
       islands :=
         (\<lambda>i. if i < num_islands b
              then (islands b i)\<lparr>pendbridges := expectbridges (islands b i) - of_nat (used b a i)\<rparr>
              else islands b i)\<rparr>"

text \<open>
  The live constraints: at most two bridges per connection, no island over its
  expected count, no bridges on two connections that the board records as crossing,
  and nothing outside the connections in use.
\<close>

definition partial_ok :: "hboard \<Rightarrow> (nat \<Rightarrow> nat) \<Rightarrow> bool" where
  "partial_ok b a \<longleftrightarrow>
     (\<forall>k < num_connections b. a k \<le> 2)
     \<and> (\<forall>k. \<not> k < num_connections b \<longrightarrow> a k = 0)
     \<and> (\<forall>i < num_islands b. used b a i \<le> expected b i)
     \<and> (\<forall>k < num_connections b. \<forall>x \<in> set (firstcross (connections b k)).
           0 < a k \<longrightarrow> cnt a x = 0)"

text \<open>When \<open>add_bridge\<close> on connection \<open>c\<close> can succeed under assignment \<open>a\<close>.\<close>

definition can_add :: "hboard \<Rightarrow> (nat \<Rightarrow> nat) \<Rightarrow> cref \<Rightarrow> bool" where
  "can_add b a c \<longleftrightarrow>
     (case c of
        OutC \<Rightarrow> False
      | Conn k \<Rightarrow>
          a k < 2
          \<and> (\<forall>i. ppendbridges1 (connections b k) = Isl i \<or> ppendbridges2 (connections b k) = Isl i
                 \<longrightarrow> used b a i < expected b i)
          \<and> (\<forall>x \<in> set (firstcross (connections b k)). cnt a x = 0))"

fun bump :: "(nat \<Rightarrow> nat) \<Rightarrow> cref \<Rightarrow> (nat \<Rightarrow> nat)" where
  "bump a OutC = a"
| "bump a (Conn k) = a(k := a k + 1)"

fun drop1 :: "(nat \<Rightarrow> nat) \<Rightarrow> cref \<Rightarrow> (nat \<Rightarrow> nat)" where
  "drop1 a OutC = a"
| "drop1 a (Conn k) = a(k := a k - 1)"

section \<open>Sequences of calls of the constraint engine\<close>

text \<open>
  A call of \<open>add_bridge\<close> or of \<open>del_bridge\<close> on a connection pointer; a sequence
  of such calls runs on the board that the call before has left. \<open>conn_of\<close> says
  that a pointer is a connection pointer of the board: the outside connection or a
  connection in use.
\<close>

datatype bridge_op = Add cref | Del cref

fun op_conn :: "bridge_op \<Rightarrow> cref" where
  "op_conn (Add c) = c"
| "op_conn (Del c) = c"

fun apply_ops :: "hboard \<Rightarrow> bridge_op list \<Rightarrow> hboard" where
  "apply_ops b [] = b"
| "apply_ops b (Add c # ops) = apply_ops (snd (add_bridge b c)) ops"
| "apply_ops b (Del c # ops) = apply_ops (snd (del_bridge b c)) ops"

definition conn_of :: "hboard \<Rightarrow> cref \<Rightarrow> bool" where
  "conn_of b c \<longleftrightarrow> (case c of OutC \<Rightarrow> True | Conn k \<Rightarrow> k < num_connections b)"

section \<open>Vocabulary for the per-island steps of the solver\<close>

text \<open>
  The spec's words for one direction of \<open>fill_bridges\<close>: call \<open>add_bridge\<close> on the
  connection until it fails or the island has no pending bridge.
\<close>

function add_until :: "hboard \<Rightarrow> cref \<Rightarrow> iref \<Rightarrow> hboard" where
  "add_until b c island =
     (if pendbridges (get_island b island) \<noteq> 0 then
        (case add_bridge b c of
           (True, b') \<Rightarrow> add_until b' c island
         | (False, b') \<Rightarrow> b')
      else b)"
  by pat_completeness auto
termination
proof (relation "measure (\<lambda>(b, c, island). nat (2 - sint (bridges (get_connection b c))))",
    goal_cases)
  case 1
  show ?case by simp
next
  case (2 b c island x y)
  then have a: "add_bridge b c = (True, y)" by simp
  show ?case using add_bridge_True_bridges [OF a] by simp
qed

declare add_until.simps [simp del]

text \<open>
  \<open>adds b c n\<close> is the board after \<open>n\<close> calls of \<open>add_bridge\<close> on \<open>c\<close>, and
  \<open>all_added b c n\<close> says that each of these calls succeeds. A forward split
  \<open>(r, d)\<close> of an island over a board \<open>base\<close> is \<open>adds (adds base right r) down d\<close>
  with all calls succeeding (\<open>split_of\<close>).
\<close>

fun adds :: "hboard \<Rightarrow> cref \<Rightarrow> nat \<Rightarrow> hboard" where
  "adds b c 0 = b"
| "adds b c (Suc n) = adds (snd (add_bridge b c)) c n"

fun all_added :: "hboard \<Rightarrow> cref \<Rightarrow> nat \<Rightarrow> bool" where
  "all_added b c 0 = True"
| "all_added b c (Suc n) = (fst (add_bridge b c) \<and> all_added (snd (add_bridge b c)) c n)"

definition split_of :: "hboard \<Rightarrow> nat \<Rightarrow> nat \<Rightarrow> nat \<Rightarrow> hboard \<Rightarrow> bool" where
  "split_of base i r d b \<longleftrightarrow>
     all_added base (slot base i RIGHT) r
     \<and> all_added (adds base (slot base i RIGHT) r) (slot base i DOWN) d
     \<and> b = adds (adds base (slot base i RIGHT) r) (slot base i DOWN) d"


section \<open>The board of \<open>main\<close> and example puzzles\<close>

text \<open>
  \<open>main\<close> passes arrays of 150 islands, 300 connections, 300 cross elements and
  10000 visited cells to \<open>init_board\<close>. Their first contents are not fixed by the
  program; here they are zero.
\<close>

definition blank_island :: hisland where
  "blank_island =
     \<lparr>pendbridges = 0, expectbridges = 0, row = 0, col = 0,
      isl_islands = (\<lambda>_. OutI), isl_connections = (\<lambda>_. OutC)\<rparr>"

definition blank_connection :: hconnection where
  "blank_connection =
     \<lparr>bridges = 0, firstcross = [], ppendbridges1 = OutI, ppendbridges2 = OutI\<rparr>"

definition blank_board :: hboard where
  "blank_board =
     \<lparr>max_islands = 0, num_islands = 0, max_connections = 0, num_connections = 0,
      max_crosselems = 0, num_crosselems = 0, rows = 0, cols = 0, max_bridges = 0,
      max_visited_size = 0, visitedlimit = 0, visitedmatrix = (\<lambda>_. False),
      islands = (\<lambda>_. blank_island), out_island_st = blank_island,
      connections = (\<lambda>_. blank_connection), out_connection_st = blank_connection\<rparr>"

definition main_board :: hboard where
  "main_board =
     init_board blank_board (\<lambda>_. blank_island) 150 (\<lambda>_. blank_connection) 300 300
       (\<lambda>_. False) 10000"

text \<open>
  Four islands around an empty centre: the connection between the islands of the
  middle row and the connection between the islands of the middle column cross.
\<close>

definition crossing_board :: hboard where
  "crossing_board = the (add_islands main_board [(0, 1, 1), (1, 0, 1), (1, 2, 1), (2, 1, 1)])"



section \<open>Properties of the bridge constraint engine\<close>

lemma upd_island_id: "upd_island b r (\<lambda>x. x) = b"
  by (simp add: upd_island_def split: iref.split)

lemma upd_connection_id: "upd_connection b r (\<lambda>x. x) = b"
  by (simp add: upd_connection_def split: cref.split)

lemma upd_island_comp: "upd_island (upd_island b r f) r g = upd_island b r (g \<circ> f)"
  by (simp add: upd_island_def split: iref.split)

lemma upd_island_commute:
  assumes "r \<noteq> r'"
  shows "upd_island (upd_island b r f) r' g = upd_island (upd_island b r' g) r f"
proof (cases r)
  case OutI
  with assms show ?thesis by (cases r') (simp_all add: upd_island_def)
next
  case (Isl i)
  show ?thesis
  proof (cases r')
    case OutI
    with Isl show ?thesis by (simp add: upd_island_def)
  next
    case (Isl j)
    with \<open>r = Isl i\<close> assms have "i \<noteq> j" by simp
    then have "(islands b)(i := f (islands b i), j := g (islands b j))
        = (islands b)(j := g (islands b j), i := f (islands b i))"
      by (rule fun_upd_twist)
    with \<open>i \<noteq> j\<close> show ?thesis
      by (simp add: upd_island_def Isl \<open>r = Isl i\<close>)
  qed
qed

lemma upd_connection_comp:
  "upd_connection (upd_connection b r f) r g = upd_connection b r (g \<circ> f)"
  by (simp add: upd_connection_def split: cref.split)

lemma upd_island_upd_connection:
  "upd_island (upd_connection b c f) r g = upd_connection (upd_island b r g) c f"
  by (simp add: upd_island_def upd_connection_def split: iref.split cref.split)

lemma sint_succ_small:
  fixes w :: cchar
  assumes "sint w < 127"
  shows "sint (w + 1) = sint w + 1"
proof -
  have "- 128 \<le> sint w" using sint_ge [of w] by simp
  with assms have "signed_take_bit 7 (sint w + 1) = sint w + 1"
    by (intro signed_take_bit_int_eq_self) simp_all
  then show ?thesis by (simp add: sint_word_ariths)
qed

lemma sint_pred_small:
  fixes w :: cchar
  assumes "- 128 < sint w"
  shows "sint (w - 1) = sint w - 1"
proof -
  have "sint w < 128" using sint_lt [of w] by simp
  with assms have "signed_take_bit 7 (sint w - 1) = sint w - 1"
    by (intro signed_take_bit_int_eq_self) simp_all
  then show ?thesis by (simp add: sint_word_ariths)
qed

lemma sint_eq_0_iff: "sint (w :: cchar) = 0 \<longleftrightarrow> w = 0"
  by (simp add: signed_eq_0_iff)

lemma cross_busy_iff:
  "cross_busy b xs \<longleftrightarrow> (\<exists>x \<in> set xs. bridges (get_connection b x) \<noteq> 0)"
  by (induction xs) auto

text \<open>The board after a successful \<open>add_bridge\<close> and \<open>del_bridge\<close>.\<close>

lemma add_bridge_True_eq:
  assumes "add_bridge b c = (True, b')"
  shows "b' = upd_island (upd_island
                (upd_connection b c (\<lambda>x. x\<lparr>bridges := bridges x + 1\<rparr>))
                (ppendbridges1 (get_connection b c)) (\<lambda>x. x\<lparr>pendbridges := pendbridges x - 1\<rparr>))
                (ppendbridges2 (get_connection b c)) (\<lambda>x. x\<lparr>pendbridges := pendbridges x - 1\<rparr>)"
  using assms by (simp add: add_bridge_def Let_def split: if_splits)

lemma del_bridge_True_eq:
  assumes "del_bridge b c = (True, b')"
  shows "b' = upd_island (upd_island
                (upd_connection b c (\<lambda>x. x\<lparr>bridges := bridges x - 1\<rparr>))
                (ppendbridges1 (get_connection b c)) (\<lambda>x. x\<lparr>pendbridges := pendbridges x + 1\<rparr>))
                (ppendbridges2 (get_connection b c)) (\<lambda>x. x\<lparr>pendbridges := pendbridges x + 1\<rparr>)"
  using assms by (simp add: del_bridge_def Let_def split: if_splits)

lemma del_after_add:
  assumes "add_bridge b c = (True, b')" "bridges (get_connection b c) \<noteq> - 1"
  shows "del_bridge b' c = (True, b)"
proof -
  let ?p1 = "ppendbridges1 (get_connection b c)"
  let ?p2 = "ppendbridges2 (get_connection b c)"
  let ?dec = "\<lambda>x::hisland. x\<lparr>pendbridges := pendbridges x - 1\<rparr>"
  let ?inc = "\<lambda>x::hisland. x\<lparr>pendbridges := pendbridges x + 1\<rparr>"
  note b' = add_bridge_True_eq [OF assms(1)]
  have nz: "bridges (get_connection b' c) \<noteq> 0"
    using assms(2) by (simp add: b' eq_neg_iff_add_eq_0 [symmetric])
  have "upd_island (upd_island (upd_island (upd_island b ?p1 ?dec) ?p2 ?dec) ?p1 ?inc) ?p2 ?inc = b"
  proof (cases "?p1 = ?p2")
    case True
    then show ?thesis by (simp add: upd_island_comp comp_def upd_island_id)
  next
    case False
    have "upd_island (upd_island (upd_island b ?p1 ?dec) ?p2 ?dec) ?p1 ?inc
        = upd_island (upd_island (upd_island b ?p1 ?dec) ?p1 ?inc) ?p2 ?dec"
      using False by (simp add: upd_island_commute)
    then show ?thesis by (simp add: upd_island_comp comp_def upd_island_id)
  qed
  then show ?thesis
    using nz
    by (simp add: del_bridge_def Let_def b' upd_island_upd_connection upd_connection_comp
        comp_def upd_connection_id)
qed

text \<open>
  C10. If \<open>add_bridge\<close> succeeds on a connection whose bridge count is not negative
  (the data model has it in 0, 1, 2), the \<open>del_bridge\<close> that follows on the same
  connection succeeds and gives back the board as it was before the \<open>add_bridge\<close>,
  field by field.
\<close>

theorem del_bridge_undoes_add_bridge:
  assumes "add_bridge b c = (True, b')"
    and "0 \<le> sint (bridges (get_connection b c))"
  shows "del_bridge b' c = (True, b)"
proof -
  have "bridges (get_connection b c) \<noteq> - 1"
    using assms(2) by auto
  with assms(1) show ?thesis by (rule del_after_add)
qed


lemma upd_island_rest:
  "(upd_island b r f)\<lparr>islands := i, out_island_st := oi, connections := cs, out_connection_st := oc\<rparr>
    = b\<lparr>islands := i, out_island_st := oi, connections := cs, out_connection_st := oc\<rparr>"
  by (simp add: upd_island_def split: iref.split)

lemma upd_connection_rest:
  "(upd_connection b r f)\<lparr>islands := i, out_island_st := oi, connections := cs, out_connection_st := oc\<rparr>
    = b\<lparr>islands := i, out_island_st := oi, connections := cs, out_connection_st := oc\<rparr>"
  by (simp add: upd_connection_def split: cref.split)

lemma bridge_moved_add:
  assumes ok: "add_bridge b c = (True, b')"
    and r: "conn_in_range b c"
  shows "bridge_moved b c 1 b'"
proof -
  let ?p1 = "ppendbridges1 (get_connection b c)"
  let ?p2 = "ppendbridges2 (get_connection b c)"
  note b' = add_bridge_True_eq [OF ok]
  from ok have nz: "pendbridges (get_island b ?p1) \<noteq> 0" "pendbridges (get_island b ?p2) \<noteq> 0"
    and lt: "\<not> 2 \<le> sint (bridges (get_connection b c))"
    by (auto simp: add_bridge_def Let_def split: if_splits)
  from r nz have ne: "?p1 \<noteq> ?p2" by (auto simp: conn_in_range_def)
  have c1: "sint (bridges (get_connection b' c)) = sint (bridges (get_connection b c)) + 1"
    using lt by (simp add: b' sint_succ_small)
  have c2: "get_connection b' c = (get_connection b c)\<lparr>bridges := bridges (get_connection b' c)\<rparr>"
    by (simp add: b')
  have c3: "\<forall>c'. c' \<noteq> c \<longrightarrow> get_connection b' c' = get_connection b c'"
    by (simp add: b' get_connection_upd_connection_other)
  have p1: "get_island b' ?p1 = (get_island b ?p1)\<lparr>pendbridges := pendbridges (get_island b ?p1) - 1\<rparr>"
    using ne by (simp add: b' get_island_upd_island_other)
  have p2: "get_island b' ?p2 = (get_island b ?p2)\<lparr>pendbridges := pendbridges (get_island b ?p2) - 1\<rparr>"
    using ne by (simp add: b' get_island_upd_island_other)
  have c4: "sint (pendbridges (get_island b' r)) = sint (pendbridges (get_island b r)) - 1
      \<and> get_island b' r = (get_island b r)\<lparr>pendbridges := pendbridges (get_island b' r)\<rparr>"
    if "r = ?p1 \<or> r = ?p2" for r
    using that r by (auto simp: p1 p2 conn_in_range_def sint_pred_small)
  have c5: "\<forall>r. r \<noteq> ?p1 \<and> r \<noteq> ?p2 \<longrightarrow> get_island b' r = get_island b r"
    by (simp add: b' get_island_upd_island_other)
  have c6: "b'\<lparr>islands := islands b, out_island_st := out_island_st b,
            connections := connections b, out_connection_st := out_connection_st b\<rparr> = b"
    by (simp add: b' upd_island_rest upd_connection_rest)
  show ?thesis
    unfolding bridge_moved_def using c1 c2 c3 c4 c5 c6 by (intro conjI allI impI) simp_all
qed

lemma bridge_moved_del:
  assumes ok: "del_bridge b c = (True, b')"
    and r: "conn_in_range b c"
  shows "bridge_moved b c (- 1) b'"
proof -
  let ?p1 = "ppendbridges1 (get_connection b c)"
  let ?p2 = "ppendbridges2 (get_connection b c)"
  note b' = del_bridge_True_eq [OF ok]
  from ok have nz: "bridges (get_connection b c) \<noteq> 0"
    by (auto simp: del_bridge_def Let_def split: if_splits)
  from r nz have ne: "?p1 \<noteq> ?p2" by (auto simp: conn_in_range_def)
  have c1: "sint (bridges (get_connection b' c)) = sint (bridges (get_connection b c)) + (- 1)"
    using r by (simp add: b' sint_pred_small conn_in_range_def)
  have c2: "get_connection b' c = (get_connection b c)\<lparr>bridges := bridges (get_connection b' c)\<rparr>"
    by (simp add: b')
  have c3: "\<forall>c'. c' \<noteq> c \<longrightarrow> get_connection b' c' = get_connection b c'"
    by (simp add: b' get_connection_upd_connection_other)
  have p1: "get_island b' ?p1 = (get_island b ?p1)\<lparr>pendbridges := pendbridges (get_island b ?p1) + 1\<rparr>"
    using ne by (simp add: b' get_island_upd_island_other)
  have p2: "get_island b' ?p2 = (get_island b ?p2)\<lparr>pendbridges := pendbridges (get_island b ?p2) + 1\<rparr>"
    using ne by (simp add: b' get_island_upd_island_other)
  have c4: "sint (pendbridges (get_island b' r)) = sint (pendbridges (get_island b r)) - (- 1)
      \<and> get_island b' r = (get_island b r)\<lparr>pendbridges := pendbridges (get_island b' r)\<rparr>"
    if "r = ?p1 \<or> r = ?p2" for r
    using that r by (auto simp: p1 p2 conn_in_range_def sint_succ_small)
  have c5: "\<forall>r. r \<noteq> ?p1 \<and> r \<noteq> ?p2 \<longrightarrow> get_island b' r = get_island b r"
    by (simp add: b' get_island_upd_island_other)
  have c6: "b'\<lparr>islands := islands b, out_island_st := out_island_st b,
            connections := connections b, out_connection_st := out_connection_st b\<rparr> = b"
    by (simp add: b' upd_island_rest upd_connection_rest)
  show ?thesis
    unfolding bridge_moved_def using c1 c2 c3 c4 c5 c6 by (intro conjI allI impI) simp_all
qed

lemma add_bridge_ok_iff:
  assumes r: "conn_in_range b c"
  shows "fst (add_bridge b c) \<longleftrightarrow>
     \<not> (sint (bridges (get_connection b c)) = 2
        \<or> pendbridges (get_island b (ppendbridges1 (get_connection b c))) = 0
        \<or> pendbridges (get_island b (ppendbridges2 (get_connection b c))) = 0
        \<or> (\<exists>x \<in> set (firstcross (get_connection b c)). 0 < sint (bridges (get_connection b x))))"
proof -
  have "cross_busy b (firstcross (get_connection b c)) \<longleftrightarrow>
     (\<exists>x \<in> set (firstcross (get_connection b c)). 0 < sint (bridges (get_connection b x)))"
    unfolding cross_busy_iff
  proof (intro bex_cong refl)
    fix x assume "x \<in> set (firstcross (get_connection b c))"
    with r have "0 \<le> sint (bridges (get_connection b x))" by (simp add: conn_in_range_def)
    then show "bridges (get_connection b x) \<noteq> 0 \<longleftrightarrow> 0 < sint (bridges (get_connection b x))"
      using sint_eq_0_iff [of "bridges (get_connection b x)"] by linarith
  qed
  moreover have "2 \<le> sint (bridges (get_connection b c)) \<longleftrightarrow> sint (bridges (get_connection b c)) = 2"
    using r by (auto simp: conn_in_range_def)
  ultimately show ?thesis
    by (simp add: add_bridge_def Let_def)
qed

text \<open>
  C3. On a connection within the ranges of the data model (\<open>conn_in_range\<close>),
  \<open>add_bridge\<close> returns false and the board unchanged when the bridge count is 2,
  an endpoint has no pending bridge, or a crossing connection carries a bridge;
  otherwise it returns true, the bridge count is one more and the pending count of
  both endpoints one less, and nothing else of the board has changed
  (\<open>bridge_moved\<close>). \<open>del_bridge\<close> returns false and the board unchanged when the
  bridge count is 0; otherwise it returns true, the bridge count is one less and
  both pending counts one more, and nothing else has changed.
\<close>

theorem add_bridge_del_bridge_cases:
  assumes "conn_in_range b c"
  shows "(if sint (bridges (get_connection b c)) = 2
             \<or> pendbridges (get_island b (ppendbridges1 (get_connection b c))) = 0
             \<or> pendbridges (get_island b (ppendbridges2 (get_connection b c))) = 0
             \<or> (\<exists>x \<in> set (firstcross (get_connection b c)).
                   0 < sint (bridges (get_connection b x)))
          then add_bridge b c = (False, b)
          else fst (add_bridge b c) \<and> bridge_moved b c 1 (snd (add_bridge b c)))
       \<and> (if bridges (get_connection b c) = 0
          then del_bridge b c = (False, b)
          else fst (del_bridge b c) \<and> bridge_moved b c (- 1) (snd (del_bridge b c)))"
proof -
  have a1: "add_bridge b c = (False, b)" if "\<not> fst (add_bridge b c)"
    using that add_bridge_False [of b c "snd (add_bridge b c)"] by (cases "add_bridge b c") simp
  have a2: "bridge_moved b c 1 (snd (add_bridge b c))" if "fst (add_bridge b c)"
    using that bridge_moved_add [OF _ assms, of "snd (add_bridge b c)"]
    by (cases "add_bridge b c") simp
  have d1: "del_bridge b c = (False, b)" if "bridges (get_connection b c) = 0"
    using that by (simp add: del_bridge_def)
  have d2: "fst (del_bridge b c)" if "bridges (get_connection b c) \<noteq> 0"
    using that by (simp add: del_bridge_def Let_def)
  have d3: "bridge_moved b c (- 1) (snd (del_bridge b c))" if "bridges (get_connection b c) \<noteq> 0"
    using d2 [OF that] bridge_moved_del [OF _ assms, of "snd (del_bridge b c)"]
    by (cases "del_bridge b c") simp
  show ?thesis
    using a1 a2 d1 d2 d3 add_bridge_ok_iff [OF assms] by (simp split: if_splits)
qed





section \<open>The graph builder establishes the board invariant\<close>

subsection \<open>Effect of \<open>fill_crosses\<close>\<close>

definition crosser :: "hboard \<Rightarrow> nat \<Rightarrow> nat \<Rightarrow> int \<Rightarrow> nat \<Rightarrow> bool" where
  "crosser b up down c i \<longleftrightarrow>
     row_of b up < row_of b i \<and> row_of b i < row_of b down \<and> col_of b i < c
     \<and> nbr b i RIGHT \<noteq> OutI \<and> c < sint (col (get_island b (nbr b i RIGHT)))"

definition same_but_crosses :: "hboard \<Rightarrow> hboard \<Rightarrow> bool" where
  "same_but_crosses b b' \<longleftrightarrow>
     b'\<lparr>connections := connections b, num_crosselems := num_crosselems b\<rparr> = b
     \<and> (\<forall>k. connections b' k = (connections b k)\<lparr>firstcross := firstcross (connections b' k)\<rparr>)"

lemma same_but_crosses_refl: "same_but_crosses b b"
  by (simp add: same_but_crosses_def)

lemma same_but_crosses_fields:
  assumes "same_but_crosses b b'"
  shows "islands b' = islands b" "num_islands b' = num_islands b"
    "num_connections b' = num_connections b" "out_island_st b' = out_island_st b"
    "out_connection_st b' = out_connection_st b" "rows b' = rows b" "cols b' = cols b"
    "max_islands b' = max_islands b" "max_connections b' = max_connections b"
    "max_crosselems b' = max_crosselems b" "visitedmatrix b' = visitedmatrix b"
    "max_visited_size b' = max_visited_size b" "visitedlimit b' = visitedlimit b"
    "max_bridges b' = max_bridges b"
    "bridges (connections b' k) = bridges (connections b k)"
    "ppendbridges1 (connections b' k) = ppendbridges1 (connections b k)"
    "ppendbridges2 (connections b' k) = ppendbridges2 (connections b k)"
proof -
  from assms have e: "b'\<lparr>connections := connections b, num_crosselems := num_crosselems b\<rparr> = b"
    and c: "connections b' k = (connections b k)\<lparr>firstcross := firstcross (connections b' k)\<rparr>"
    by (simp_all add: same_but_crosses_def)
  show "islands b' = islands b" using arg_cong [OF e, of islands] by simp
  show "num_islands b' = num_islands b" using arg_cong [OF e, of num_islands] by simp
  show "num_connections b' = num_connections b" using arg_cong [OF e, of num_connections] by simp
  show "out_island_st b' = out_island_st b" using arg_cong [OF e, of out_island_st] by simp
  show "out_connection_st b' = out_connection_st b"
    using arg_cong [OF e, of out_connection_st] by simp
  show "rows b' = rows b" using arg_cong [OF e, of rows] by simp
  show "cols b' = cols b" using arg_cong [OF e, of cols] by simp
  show "max_islands b' = max_islands b" using arg_cong [OF e, of max_islands] by simp
  show "max_connections b' = max_connections b" using arg_cong [OF e, of max_connections] by simp
  show "max_crosselems b' = max_crosselems b" using arg_cong [OF e, of max_crosselems] by simp
  show "visitedmatrix b' = visitedmatrix b" using arg_cong [OF e, of visitedmatrix] by simp
  show "max_visited_size b' = max_visited_size b" using arg_cong [OF e, of max_visited_size] by simp
  show "visitedlimit b' = visitedlimit b" using arg_cong [OF e, of visitedlimit] by simp
  show "max_bridges b' = max_bridges b" using arg_cong [OF e, of max_bridges] by simp
  show "bridges (connections b' k) = bridges (connections b k)" by (subst c) simp
  show "ppendbridges1 (connections b' k) = ppendbridges1 (connections b k)" by (subst c) simp
  show "ppendbridges2 (connections b' k) = ppendbridges2 (connections b k)" by (subst c) simp
qed

lemma same_but_crosses_trans:
  assumes "same_but_crosses b b'" "same_but_crosses b' b''"
  shows "same_but_crosses b b''"
proof -
  have 1: "b''\<lparr>connections := connections b, num_crosselems := num_crosselems b\<rparr> = b"
  proof -
    have "b''\<lparr>connections := connections b, num_crosselems := num_crosselems b\<rparr>
        = (b''\<lparr>connections := connections b', num_crosselems := num_crosselems b'\<rparr>)
            \<lparr>connections := connections b, num_crosselems := num_crosselems b\<rparr>"
      by simp
    also have "\<dots> = b'\<lparr>connections := connections b, num_crosselems := num_crosselems b\<rparr>"
      using assms(2) by (simp only: same_but_crosses_def)
    also have "\<dots> = b" using assms(1) by (simp only: same_but_crosses_def)
    finally show ?thesis .
  qed
  have 2: "connections b'' k = (connections b k)\<lparr>firstcross := firstcross (connections b'' k)\<rparr>" for k
  proof -
    have "connections b'' k = (connections b' k)\<lparr>firstcross := firstcross (connections b'' k)\<rparr>"
      using assms(2) by (simp only: same_but_crosses_def)
    also have "connections b' k = (connections b k)\<lparr>firstcross := firstcross (connections b' k)\<rparr>"
      using assms(1) by (simp only: same_but_crosses_def)
    finally show ?thesis by simp
  qed
  show ?thesis unfolding same_but_crosses_def using 1 2 by blast
qed

lemma crosser_same:
  assumes "same_but_crosses b b'"
  shows "crosser b' up down c i = crosser b up down c i"
  using same_but_crosses_fields(1,4) [OF assms]
  by (simp add: crosser_def row_of_def col_of_def nbr_def get_island_def split: iref.split)

lemma cross_step:
  assumes "next_crosselem b = Some b1"
    and "next_crosselem (insert_crosselem b1 (Conn h) (Conn v)) = Some b2"
    and "b3 = insert_crosselem b2 (Conn v) (Conn h)"
  shows "same_but_crosses b b3"
    and "firstcross (connections b3 k) =
           (if k = v then [Conn h] else []) @ (if k = h then [Conn v] else [])
             @ firstcross (connections b k)"
  using assms
  by (auto simp: next_crosselem_def insert_crosselem_def upd_connection_def same_but_crosses_def
      split: if_splits)


lemma slot_same:
  assumes "same_but_crosses b b'"
  shows "slot b' i d = slot b i d" "nbr b' i d = nbr b i d"
    "row_of b' i = row_of b i" "col_of b' i = col_of b i"
  using same_but_crosses_fields(1) [OF assms]
  by (simp_all add: slot_def nbr_def row_of_def col_of_def)

lemma fill_crosses_loop_unfold:
  assumes "island < down"
  shows "fill_crosses_loop b up down c conn_vert island =
     (if crosser b up down c island then
        (case next_crosselem b of
           None \<Rightarrow> None
         | Some b1 \<Rightarrow>
             (case next_crosselem (insert_crosselem b1 (slot b island RIGHT) conn_vert) of
                None \<Rightarrow> None
              | Some b2 \<Rightarrow>
                  fill_crosses_loop (insert_crosselem b2 conn_vert (slot b island RIGHT))
                    up down c conn_vert (island + 1)))
      else fill_crosses_loop b up down c conn_vert (island + 1))"
  unfolding crosser_def row_of_def col_of_def nbr_def slot_def
  using assms by (subst fill_crosses_loop.simps) (auto simp: Let_def)

lemma fill_crosses_loop_effect:
  assumes "fill_crosses_loop b up down c (Conn v) island = Some b'"
    and "\<forall>i. island \<le> i \<and> i < down \<and> crosser b up down c i \<longrightarrow> (\<exists>h. slot b i RIGHT = Conn h)"
  shows "same_but_crosses b b' \<and>
    (\<forall>k. set (firstcross (connections b' k)) = set (firstcross (connections b k))
      \<union> (if k = v then {slot b i RIGHT | i. island \<le> i \<and> i < down \<and> crosser b up down c i} else {})
      \<union> (if \<exists>i. island \<le> i \<and> i < down \<and> crosser b up down c i \<and> slot b i RIGHT = Conn k
         then {Conn v} else {}))"
  using assms
proof (induction "down - island" arbitrary: b island)
  case 0
  then have "island = down"
    by (subst (asm) fill_crosses_loop.simps) (auto split: if_splits)
  with 0 have "b' = b"
    by (subst (asm) fill_crosses_loop.simps) (auto split: if_splits)
  with \<open>island = down\<close> show ?case by (auto simp: same_but_crosses_refl)
next
  case (Suc n)
  then have lt: "island < down" and n: "n = down - (island + 1)" by simp_all
  note unf = fill_crosses_loop_unfold [OF lt, of b up c "Conn v"]
  have le: "island \<le> i \<longleftrightarrow> i = island \<or> island + 1 \<le> i" for i
    by auto
  show ?case
  proof (cases "crosser b up down c island")
    case False
    with Suc.prems(1) unf
    have r: "fill_crosses_loop b up down c (Conn v) (island + 1) = Some b'" by simp
    have a: "\<forall>i. island + 1 \<le> i \<and> i < down \<and> crosser b up down c i \<longrightarrow> (\<exists>h. slot b i RIGHT = Conn h)"
      using Suc.prems(2) by auto
    have e1: "{slot b i RIGHT | i. island \<le> i \<and> i < down \<and> crosser b up down c i}
        = {slot b i RIGHT | i. island + 1 \<le> i \<and> i < down \<and> crosser b up down c i}"
      using False lt by (auto simp: le)
    have e2: "(\<exists>i. island \<le> i \<and> i < down \<and> crosser b up down c i \<and> slot b i RIGHT = Conn k)
        \<longleftrightarrow> (\<exists>i. island + 1 \<le> i \<and> i < down \<and> crosser b up down c i \<and> slot b i RIGHT = Conn k)"
      for k
      using False lt by (auto simp: le)
    show ?thesis
      unfolding e1 e2 using Suc.hyps(1) [OF n r a] .
  next
    case True
    with Suc.prems(2) lt obtain h where h: "slot b island RIGHT = Conn h" by auto
    from True Suc.prems(1) unf h obtain b1 b2 where
      b1: "next_crosselem b = Some b1"
      and b2: "next_crosselem (insert_crosselem b1 (Conn h) (Conn v)) = Some b2"
      and r: "fill_crosses_loop (insert_crosselem b2 (Conn v) (Conn h)) up down c (Conn v) (island + 1)
                = Some b'"
      by (auto split: option.splits)
    define b3 where "b3 = insert_crosselem b2 (Conn v) (Conn h)"
    note st = cross_step [OF b1 b2 b3_def]
    have cr: "crosser b3 up down c i = crosser b up down c i" for i
      by (rule crosser_same [OF st(1)])
    have sl: "slot b3 i RIGHT = slot b i RIGHT" for i
      by (rule slot_same [OF st(1)])
    have a: "\<forall>i. island + 1 \<le> i \<and> i < down \<and> crosser b3 up down c i \<longrightarrow> (\<exists>h. slot b3 i RIGHT = Conn h)"
      using Suc.prems(2) by (auto simp: cr sl)
    from Suc.hyps(1) [OF n r [folded b3_def] a]
    have ih1: "same_but_crosses b3 b'"
      and ih2: "\<And>k. set (firstcross (connections b' k)) = set (firstcross (connections b3 k))
      \<union> (if k = v then {slot b i RIGHT | i. island + 1 \<le> i \<and> i < down \<and> crosser b up down c i} else {})
      \<union> (if \<exists>i. island + 1 \<le> i \<and> i < down \<and> crosser b up down c i \<and> slot b i RIGHT = Conn k
         then {Conn v} else {})"
      by (simp_all add: cr sl)
    have s1: "same_but_crosses b b'"
      by (rule same_but_crosses_trans [OF st(1) ih1])
    have s2: "set (firstcross (connections b' k)) = set (firstcross (connections b k))
      \<union> (if k = v then {slot b i RIGHT | i. island \<le> i \<and> i < down \<and> crosser b up down c i} else {})
      \<union> (if \<exists>i. island \<le> i \<and> i < down \<and> crosser b up down c i \<and> slot b i RIGHT = Conn k
         then {Conn v} else {})" for k
    proof -
      have e1: "{slot b i RIGHT | i. island \<le> i \<and> i < down \<and> crosser b up down c i}
          = insert (Conn h) {slot b i RIGHT | i. island + 1 \<le> i \<and> i < down \<and> crosser b up down c i}"
        using True h lt by (auto simp: le intro: exI [of _ island])
      have e2: "(\<exists>i. island \<le> i \<and> i < down \<and> crosser b up down c i \<and> slot b i RIGHT = Conn k)
          \<longleftrightarrow> k = h \<or> (\<exists>i. island + 1 \<le> i \<and> i < down \<and> crosser b up down c i \<and> slot b i RIGHT = Conn k)"
        using True h lt by (auto simp: le)
      show ?thesis
        unfolding ih2 [of k] st(2) [of k] e1 e2 by auto
    qed
    from s1 s2 show ?thesis by blast
  qed
qed



lemma find_up_loop_cases:
  "find_up_loop b c n = OutI \<and> (\<forall>m < n. col (islands b m) \<noteq> c)
   \<or> (\<exists>u < n. find_up_loop b c n = Isl u \<and> col (islands b u) = c
        \<and> (\<forall>m. u < m \<and> m < n \<longrightarrow> col (islands b m) \<noteq> c))"
proof (induction n)
  case 0
  show ?case by simp
next
  case (Suc n)
  show ?case
  proof (cases "col (islands b n) = c")
    case True
    then show ?thesis by (auto intro!: exI [of _ n])
  next
    case False
    from Suc.IH show ?thesis
    proof (elim disjE exE conjE)
      assume "find_up_loop b c n = OutI" "\<forall>m<n. col (islands b m) \<noteq> c"
      with False show ?thesis by (auto simp: less_Suc_eq)
    next
      fix u assume u: "u < n" "find_up_loop b c n = Isl u" "col (islands b u) = c"
        "\<forall>m. u < m \<and> m < n \<longrightarrow> col (islands b m) \<noteq> c"
      with False have "\<forall>m. u < m \<and> m < Suc n \<longrightarrow> col (islands b m) \<noteq> c"
        by (auto simp: less_Suc_eq)
      with u False show ?thesis by (auto intro!: exI [of _ u])
    qed
  qed
qed

lemma find_up_loop_cong:
  "(\<And>m. m < n \<Longrightarrow> col (islands b' m) = col (islands b m)) \<Longrightarrow>
     find_up_loop b' c n = find_up_loop b c n"
  by (induction n) auto

fun find_up_in :: "(nat \<Rightarrow> hisland) \<Rightarrow> cchar \<Rightarrow> nat \<Rightarrow> iref" where
  "find_up_in f c 0 = OutI"
| "find_up_in f c (Suc k) = (if col (f k) = c then Isl k else find_up_in f c k)"

lemma find_up_loop_in: "find_up_loop b c n = find_up_in (islands b) c n"
  by (induction n) auto

lemma find_up_in_upd: "n \<le> m \<Longrightarrow> find_up_in (f(m := x)) c n = find_up_in f c n"
  by (induction n) auto

lemma get_set_isl_island [simp]:
  shows
    "num_islands (set_isl_island b (Isl i) d v) = num_islands b"
    "num_connections (set_isl_island b (Isl i) d v) = num_connections b"
    "rows (set_isl_island b (Isl i) d v) = rows b"
    "cols (set_isl_island b (Isl i) d v) = cols b"
    "out_island_st (set_isl_island b (Isl i) d v) = out_island_st b"
    "out_connection_st (set_isl_island b (Isl i) d v) = out_connection_st b"
    "visitedmatrix (set_isl_island b (Isl i) d v) = visitedmatrix b"
    "max_visited_size (set_isl_island b (Isl i) d v) = max_visited_size b"
    "max_islands (set_isl_island b (Isl i) d v) = max_islands b"
    "max_connections (set_isl_island b (Isl i) d v) = max_connections b"
    "max_crosselems (set_isl_island b (Isl i) d v) = max_crosselems b"
    "num_crosselems (set_isl_island b (Isl i) d v) = num_crosselems b"
    "visitedlimit (set_isl_island b (Isl i) d v) = visitedlimit b"
    "max_bridges (set_isl_island b (Isl i) d v) = max_bridges b"
    "pendbridges (islands (set_isl_island b (Isl i) d v) m) = pendbridges (islands b m)"
    "expectbridges (islands (set_isl_island b (Isl i) d v) m) = expectbridges (islands b m)"
    "row (islands (set_isl_island b (Isl i) d v) m) = row (islands b m)"
    "col (islands (set_isl_island b (Isl i) d v) m) = col (islands b m)"
    "slot (set_isl_island b (Isl i) d v) m d' = slot b m d'"
    "nbr (set_isl_island b (Isl i) d v) m d' = (if m = i \<and> d' = d then v else nbr b m d')"
    "row_of (set_isl_island b (Isl i) d v) m = row_of b m"
    "col_of (set_isl_island b (Isl i) d v) m = col_of b m"
    "connections (set_isl_island b (Isl i) d v) = connections b"
  by (simp_all add: set_isl_island_def upd_island_def slot_def nbr_def row_of_def col_of_def)

lemma get_set_isl_connection [simp]:
  shows
    "num_islands (set_isl_connection b (Isl i) d v) = num_islands b"
    "num_connections (set_isl_connection b (Isl i) d v) = num_connections b"
    "rows (set_isl_connection b (Isl i) d v) = rows b"
    "cols (set_isl_connection b (Isl i) d v) = cols b"
    "out_island_st (set_isl_connection b (Isl i) d v) = out_island_st b"
    "out_connection_st (set_isl_connection b (Isl i) d v) = out_connection_st b"
    "visitedmatrix (set_isl_connection b (Isl i) d v) = visitedmatrix b"
    "max_visited_size (set_isl_connection b (Isl i) d v) = max_visited_size b"
    "max_islands (set_isl_connection b (Isl i) d v) = max_islands b"
    "max_connections (set_isl_connection b (Isl i) d v) = max_connections b"
    "max_crosselems (set_isl_connection b (Isl i) d v) = max_crosselems b"
    "num_crosselems (set_isl_connection b (Isl i) d v) = num_crosselems b"
    "visitedlimit (set_isl_connection b (Isl i) d v) = visitedlimit b"
    "max_bridges (set_isl_connection b (Isl i) d v) = max_bridges b"
    "pendbridges (islands (set_isl_connection b (Isl i) d v) m) = pendbridges (islands b m)"
    "expectbridges (islands (set_isl_connection b (Isl i) d v) m) = expectbridges (islands b m)"
    "row (islands (set_isl_connection b (Isl i) d v) m) = row (islands b m)"
    "col (islands (set_isl_connection b (Isl i) d v) m) = col (islands b m)"
    "slot (set_isl_connection b (Isl i) d v) m d' = (if m = i \<and> d' = d then v else slot b m d')"
    "nbr (set_isl_connection b (Isl i) d v) m d' = nbr b m d'"
    "row_of (set_isl_connection b (Isl i) d v) m = row_of b m"
    "col_of (set_isl_connection b (Isl i) d v) m = col_of b m"
    "connections (set_isl_connection b (Isl i) d v) = connections b"
  by (simp_all add: set_isl_connection_def upd_island_def slot_def nbr_def row_of_def col_of_def)

lemma get_clear_isl_connections [simp]:
  shows
    "num_islands (upd_island b (Isl i) (\<lambda>x. x\<lparr>isl_connections := (\<lambda>_. OutC)\<rparr>)) = num_islands b"
    "num_connections (upd_island b (Isl i) (\<lambda>x. x\<lparr>isl_connections := (\<lambda>_. OutC)\<rparr>)) = num_connections b"
    "rows (upd_island b (Isl i) (\<lambda>x. x\<lparr>isl_connections := (\<lambda>_. OutC)\<rparr>)) = rows b"
    "cols (upd_island b (Isl i) (\<lambda>x. x\<lparr>isl_connections := (\<lambda>_. OutC)\<rparr>)) = cols b"
    "out_island_st (upd_island b (Isl i) (\<lambda>x. x\<lparr>isl_connections := (\<lambda>_. OutC)\<rparr>)) = out_island_st b"
    "out_connection_st (upd_island b (Isl i) (\<lambda>x. x\<lparr>isl_connections := (\<lambda>_. OutC)\<rparr>)) = out_connection_st b"
    "visitedmatrix (upd_island b (Isl i) (\<lambda>x. x\<lparr>isl_connections := (\<lambda>_. OutC)\<rparr>)) = visitedmatrix b"
    "max_visited_size (upd_island b (Isl i) (\<lambda>x. x\<lparr>isl_connections := (\<lambda>_. OutC)\<rparr>)) = max_visited_size b"
    "max_islands (upd_island b (Isl i) (\<lambda>x. x\<lparr>isl_connections := (\<lambda>_. OutC)\<rparr>)) = max_islands b"
    "max_connections (upd_island b (Isl i) (\<lambda>x. x\<lparr>isl_connections := (\<lambda>_. OutC)\<rparr>)) = max_connections b"
    "max_crosselems (upd_island b (Isl i) (\<lambda>x. x\<lparr>isl_connections := (\<lambda>_. OutC)\<rparr>)) = max_crosselems b"
    "num_crosselems (upd_island b (Isl i) (\<lambda>x. x\<lparr>isl_connections := (\<lambda>_. OutC)\<rparr>)) = num_crosselems b"
    "visitedlimit (upd_island b (Isl i) (\<lambda>x. x\<lparr>isl_connections := (\<lambda>_. OutC)\<rparr>)) = visitedlimit b"
    "max_bridges (upd_island b (Isl i) (\<lambda>x. x\<lparr>isl_connections := (\<lambda>_. OutC)\<rparr>)) = max_bridges b"
    "pendbridges (islands (upd_island b (Isl i) (\<lambda>x. x\<lparr>isl_connections := (\<lambda>_. OutC)\<rparr>)) m) = pendbridges (islands b m)"
    "expectbridges (islands (upd_island b (Isl i) (\<lambda>x. x\<lparr>isl_connections := (\<lambda>_. OutC)\<rparr>)) m) = expectbridges (islands b m)"
    "row (islands (upd_island b (Isl i) (\<lambda>x. x\<lparr>isl_connections := (\<lambda>_. OutC)\<rparr>)) m) = row (islands b m)"
    "col (islands (upd_island b (Isl i) (\<lambda>x. x\<lparr>isl_connections := (\<lambda>_. OutC)\<rparr>)) m) = col (islands b m)"
    "slot (upd_island b (Isl i) (\<lambda>x. x\<lparr>isl_connections := (\<lambda>_. OutC)\<rparr>)) m d' = (if m = i then OutC else slot b m d')"
    "nbr (upd_island b (Isl i) (\<lambda>x. x\<lparr>isl_connections := (\<lambda>_. OutC)\<rparr>)) m d' = nbr b m d'"
    "row_of (upd_island b (Isl i) (\<lambda>x. x\<lparr>isl_connections := (\<lambda>_. OutC)\<rparr>)) m = row_of b m"
    "col_of (upd_island b (Isl i) (\<lambda>x. x\<lparr>isl_connections := (\<lambda>_. OutC)\<rparr>)) m = col_of b m"
    "connections (upd_island b (Isl i) (\<lambda>x. x\<lparr>isl_connections := (\<lambda>_. OutC)\<rparr>)) = connections b"
  by (simp_all add: upd_island_def slot_def nbr_def row_of_def col_of_def)

lemma get_init_island [simp]:
  shows
    "num_islands (upd_island b (Isl i) (\<lambda>x. x\<lparr>expectbridges := e, pendbridges := p, row := r, col := c\<rparr>)) = num_islands b"
    "num_connections (upd_island b (Isl i) (\<lambda>x. x\<lparr>expectbridges := e, pendbridges := p, row := r, col := c\<rparr>)) = num_connections b"
    "rows (upd_island b (Isl i) (\<lambda>x. x\<lparr>expectbridges := e, pendbridges := p, row := r, col := c\<rparr>)) = rows b"
    "cols (upd_island b (Isl i) (\<lambda>x. x\<lparr>expectbridges := e, pendbridges := p, row := r, col := c\<rparr>)) = cols b"
    "out_island_st (upd_island b (Isl i) (\<lambda>x. x\<lparr>expectbridges := e, pendbridges := p, row := r, col := c\<rparr>)) = out_island_st b"
    "out_connection_st (upd_island b (Isl i) (\<lambda>x. x\<lparr>expectbridges := e, pendbridges := p, row := r, col := c\<rparr>)) = out_connection_st b"
    "visitedmatrix (upd_island b (Isl i) (\<lambda>x. x\<lparr>expectbridges := e, pendbridges := p, row := r, col := c\<rparr>)) = visitedmatrix b"
    "max_visited_size (upd_island b (Isl i) (\<lambda>x. x\<lparr>expectbridges := e, pendbridges := p, row := r, col := c\<rparr>)) = max_visited_size b"
    "max_islands (upd_island b (Isl i) (\<lambda>x. x\<lparr>expectbridges := e, pendbridges := p, row := r, col := c\<rparr>)) = max_islands b"
    "max_connections (upd_island b (Isl i) (\<lambda>x. x\<lparr>expectbridges := e, pendbridges := p, row := r, col := c\<rparr>)) = max_connections b"
    "max_crosselems (upd_island b (Isl i) (\<lambda>x. x\<lparr>expectbridges := e, pendbridges := p, row := r, col := c\<rparr>)) = max_crosselems b"
    "num_crosselems (upd_island b (Isl i) (\<lambda>x. x\<lparr>expectbridges := e, pendbridges := p, row := r, col := c\<rparr>)) = num_crosselems b"
    "visitedlimit (upd_island b (Isl i) (\<lambda>x. x\<lparr>expectbridges := e, pendbridges := p, row := r, col := c\<rparr>)) = visitedlimit b"
    "max_bridges (upd_island b (Isl i) (\<lambda>x. x\<lparr>expectbridges := e, pendbridges := p, row := r, col := c\<rparr>)) = max_bridges b"
    "pendbridges (islands (upd_island b (Isl i) (\<lambda>x. x\<lparr>expectbridges := e, pendbridges := p, row := r, col := c\<rparr>)) m) = (if m = i then p else pendbridges (islands b m))"
    "expectbridges (islands (upd_island b (Isl i) (\<lambda>x. x\<lparr>expectbridges := e, pendbridges := p, row := r, col := c\<rparr>)) m) = (if m = i then e else expectbridges (islands b m))"
    "row (islands (upd_island b (Isl i) (\<lambda>x. x\<lparr>expectbridges := e, pendbridges := p, row := r, col := c\<rparr>)) m) = (if m = i then r else row (islands b m))"
    "col (islands (upd_island b (Isl i) (\<lambda>x. x\<lparr>expectbridges := e, pendbridges := p, row := r, col := c\<rparr>)) m) = (if m = i then c else col (islands b m))"
    "slot (upd_island b (Isl i) (\<lambda>x. x\<lparr>expectbridges := e, pendbridges := p, row := r, col := c\<rparr>)) m d' = slot b m d'"
    "nbr (upd_island b (Isl i) (\<lambda>x. x\<lparr>expectbridges := e, pendbridges := p, row := r, col := c\<rparr>)) m d' = nbr b m d'"
    "connections (upd_island b (Isl i) (\<lambda>x. x\<lparr>expectbridges := e, pendbridges := p, row := r, col := c\<rparr>)) = connections b"
  by (simp_all add: upd_island_def slot_def nbr_def row_of_def col_of_def)

lemma get_new_connection [simp]:
  shows
    "num_islands (upd_connection b (Conn k) (new_connection p1 p2)) = num_islands b"
    "num_connections (upd_connection b (Conn k) (new_connection p1 p2)) = num_connections b"
    "rows (upd_connection b (Conn k) (new_connection p1 p2)) = rows b"
    "cols (upd_connection b (Conn k) (new_connection p1 p2)) = cols b"
    "out_island_st (upd_connection b (Conn k) (new_connection p1 p2)) = out_island_st b"
    "out_connection_st (upd_connection b (Conn k) (new_connection p1 p2)) = out_connection_st b"
    "visitedmatrix (upd_connection b (Conn k) (new_connection p1 p2)) = visitedmatrix b"
    "max_visited_size (upd_connection b (Conn k) (new_connection p1 p2)) = max_visited_size b"
    "max_islands (upd_connection b (Conn k) (new_connection p1 p2)) = max_islands b"
    "max_connections (upd_connection b (Conn k) (new_connection p1 p2)) = max_connections b"
    "max_crosselems (upd_connection b (Conn k) (new_connection p1 p2)) = max_crosselems b"
    "num_crosselems (upd_connection b (Conn k) (new_connection p1 p2)) = num_crosselems b"
    "visitedlimit (upd_connection b (Conn k) (new_connection p1 p2)) = visitedlimit b"
    "max_bridges (upd_connection b (Conn k) (new_connection p1 p2)) = max_bridges b"
    "pendbridges (islands (upd_connection b (Conn k) (new_connection p1 p2)) m) = pendbridges (islands b m)"
    "expectbridges (islands (upd_connection b (Conn k) (new_connection p1 p2)) m) = expectbridges (islands b m)"
    "row (islands (upd_connection b (Conn k) (new_connection p1 p2)) m) = row (islands b m)"
    "col (islands (upd_connection b (Conn k) (new_connection p1 p2)) m) = col (islands b m)"
    "slot (upd_connection b (Conn k) (new_connection p1 p2)) m d' = slot b m d'"
    "nbr (upd_connection b (Conn k) (new_connection p1 p2)) m d' = nbr b m d'"
    "row_of (upd_connection b (Conn k) (new_connection p1 p2)) m = row_of b m"
    "col_of (upd_connection b (Conn k) (new_connection p1 p2)) m = col_of b m"
    "bridges (connections (upd_connection b (Conn k) (new_connection p1 p2)) k') = (if k' = k then 0 else bridges (connections b k'))"
    "ppendbridges1 (connections (upd_connection b (Conn k) (new_connection p1 p2)) k') = (if k' = k then p1 else ppendbridges1 (connections b k'))"
    "ppendbridges2 (connections (upd_connection b (Conn k) (new_connection p1 p2)) k') = (if k' = k then p2 else ppendbridges2 (connections b k'))"
    "firstcross (connections (upd_connection b (Conn k) (new_connection p1 p2)) k') = (if k' = k then [] else firstcross (connections b k'))"
  by (simp_all add: upd_connection_def new_connection_def slot_def nbr_def row_of_def col_of_def)

lemma get_raw_updates [simp]:
  shows
    "slot (b\<lparr>num_islands := x1\<rparr>) m d' = slot b m d'"
    "nbr (b\<lparr>num_islands := x1\<rparr>) m d' = nbr b m d'"
    "row_of (b\<lparr>num_islands := x1\<rparr>) m = row_of b m"
    "col_of (b\<lparr>num_islands := x1\<rparr>) m = col_of b m"
    "slot (b\<lparr>num_connections := x2\<rparr>) m d' = slot b m d'"
    "nbr (b\<lparr>num_connections := x2\<rparr>) m d' = nbr b m d'"
    "row_of (b\<lparr>num_connections := x2\<rparr>) m = row_of b m"
    "col_of (b\<lparr>num_connections := x2\<rparr>) m = col_of b m"
    "slot (b\<lparr>rows := x3\<rparr>) m d' = slot b m d'"
    "nbr (b\<lparr>rows := x3\<rparr>) m d' = nbr b m d'"
    "row_of (b\<lparr>rows := x3\<rparr>) m = row_of b m"
    "col_of (b\<lparr>rows := x3\<rparr>) m = col_of b m"
    "slot (b\<lparr>cols := x4\<rparr>) m d' = slot b m d'"
    "nbr (b\<lparr>cols := x4\<rparr>) m d' = nbr b m d'"
    "row_of (b\<lparr>cols := x4\<rparr>) m = row_of b m"
    "col_of (b\<lparr>cols := x4\<rparr>) m = col_of b m"
    "slot (b\<lparr>max_bridges := x5\<rparr>) m d' = slot b m d'"
    "nbr (b\<lparr>max_bridges := x5\<rparr>) m d' = nbr b m d'"
    "row_of (b\<lparr>max_bridges := x5\<rparr>) m = row_of b m"
    "col_of (b\<lparr>max_bridges := x5\<rparr>) m = col_of b m"
    "slot (b\<lparr>num_crosselems := x6\<rparr>) m d' = slot b m d'"
    "nbr (b\<lparr>num_crosselems := x6\<rparr>) m d' = nbr b m d'"
    "row_of (b\<lparr>num_crosselems := x6\<rparr>) m = row_of b m"
    "col_of (b\<lparr>num_crosselems := x6\<rparr>) m = col_of b m"
  by (simp_all add: slot_def nbr_def row_of_def col_of_def)

text \<open>The board after the wiring of a new island, before \<open>fill_crosses\<close>.\<close>

definition wired :: "hboard \<Rightarrow> int \<Rightarrow> int \<Rightarrow> int \<Rightarrow> iref \<Rightarrow> iref \<Rightarrow> hboard \<Rightarrow> bool" where
  "wired b r c e left up b' \<longleftrightarrow>
     (let n = num_islands b; nc = num_connections b;
          kl = (if left = OutI then OutC else Conn nc);
          nu = (if left = OutI then nc else nc + 1);
          ku = (if up = OutI then OutC else Conn nu)
      in
      num_islands b' = Suc n \<and> num_connections b' = (if up = OutI then nu else nu + 1)
      \<and> rows b' = max (rows b) (r + 1) \<and> cols b' = max (cols b) (c + 1)
      \<and> out_island_st b' = out_island_st b \<and> out_connection_st b' = out_connection_st b
      \<and> visitedmatrix b' = visitedmatrix b \<and> max_visited_size b' = max_visited_size b
      \<and> (\<forall>i. i \<noteq> n \<longrightarrow>
            pendbridges (islands b' i) = pendbridges (islands b i)
            \<and> expectbridges (islands b' i) = expectbridges (islands b i)
            \<and> row (islands b' i) = row (islands b i) \<and> col (islands b' i) = col (islands b i))
      \<and> pendbridges (islands b' n) = word_of_int e \<and> expectbridges (islands b' n) = word_of_int e
      \<and> row (islands b' n) = word_of_int r \<and> col (islands b' n) = word_of_int c
      \<and> (\<forall>i d. slot b' i d =
            (if i = n then (if d = LEFT then kl else if d = UP then ku else OutC)
             else if left = Isl i \<and> d = RIGHT then kl
             else if up = Isl i \<and> d = DOWN then ku else slot b i d))
      \<and> (\<forall>i d. nbr b' i d =
            (if i = n then (if d = LEFT then left else if d = UP then up else OutI)
             else if left = Isl i \<and> d = RIGHT then Isl n
             else if up = Isl i \<and> d = DOWN then Isl n else nbr b i d))
      \<and> (\<forall>k < nc. bridges (connections b' k) = bridges (connections b k)
            \<and> ppendbridges1 (connections b' k) = ppendbridges1 (connections b k)
            \<and> ppendbridges2 (connections b' k) = ppendbridges2 (connections b k))
      \<and> (left \<noteq> OutI \<longrightarrow> bridges (connections b' nc) = 0
            \<and> ppendbridges1 (connections b' nc) = left \<and> ppendbridges2 (connections b' nc) = Isl n)
      \<and> (up \<noteq> OutI \<longrightarrow> bridges (connections b' nu) = 0
            \<and> ppendbridges1 (connections b' nu) = up \<and> ppendbridges2 (connections b' nu) = Isl n))"

definition uncrossed :: "hboard \<Rightarrow> hboard \<Rightarrow> bool" where
  "uncrossed b b' \<longleftrightarrow>
     (\<forall>k < num_connections b'. firstcross (connections b' k) =
        (if k < num_connections b then firstcross (connections b k) else []))"

lemmas wire_defs = next_island_def next_connection_def
  fill_connections_def connect_left_def connect_up_def find_from_island_def
  set_isl_island_def set_isl_connection_def new_connection_def upd_island_def upd_connection_def
  get_island_def get_connection_def

lemma find_from_island_LEFT:
  assumes "n < num_islands b"
  shows "find_from_island b (int n) LEFT =
     Some (if 0 < n \<and> \<not> sint (row (islands b (n - 1))) < sint (row (islands b n))
           then Isl (n - 1) else OutI)"
proof (cases n)
  case 0
  with assms show ?thesis by (simp add: find_from_island_def)
next
  case (Suc m)
  then have "nat (int n - 1) = m" "nat (1 + int m) = Suc m" "nat (int n) = Suc m" by simp_all
  with Suc assms show ?thesis by (simp add: find_from_island_def Let_def)
qed

lemma find_from_island_UP:
  assumes "n < num_islands b"
  shows "find_from_island b (int n) UP = Some (find_up_loop b (col (islands b n)) n)"
  using assms by (simp add: find_from_island_def Let_def)

lemma add_island_wired:
  assumes "add_island b r c e = Some b'"
    and "left = (if 0 < num_islands b \<and> \<not> sint (row (islands b (num_islands b - 1))) < sint (word_of_int r :: cchar)
                 then Isl (num_islands b - 1) else OutI)"
    and "up = find_up_loop b (word_of_int c) (num_islands b)"
    and "\<forall>i. left = Isl i \<longrightarrow> up \<noteq> Isl i"
  shows "\<exists>bw. wired b r c e left up bw \<and> uncrossed b bw
           \<and> (case up of
                 OutI \<Rightarrow> b' = bw\<lparr>max_bridges := max_bridges bw + word_of_int e\<rparr>
               | Isl u \<Rightarrow> (\<exists>bc. fill_crosses bw u (num_islands b) = Some bc
                           \<and> b' = bc\<lparr>max_bridges := max_bridges bc + word_of_int e\<rparr>))"
proof -
  define n where "n = num_islands b"
  define B0 where "B0 = (let b2 = upd_island (b\<lparr>num_islands := n + 1\<rparr>) (Isl n)
                         (\<lambda>x. x\<lparr>expectbridges := word_of_int e,
                                 pendbridges := word_of_int e,
                                 row := word_of_int r, col := word_of_int c\<rparr>);
                  b3 = (if rows b2 \<le> r then b2\<lparr>rows := r + 1\<rparr> else b2)
              in (if cols b3 \<le> c then b3\<lparr>cols := c + 1\<rparr> else b3))"
  from assms(1) obtain b5 where fc: "fill_connections B0 = Some b5"
    and b': "b' = b5\<lparr>max_bridges := max_bridges b5 + word_of_int e\<rparr>"
    by (auto simp: add_island_def next_island_def n_def B0_def Let_def
        split: if_splits option.splits)
  have B0: "num_islands B0 = Suc n" "num_connections B0 = num_connections b"
    "max_connections B0 = max_connections b"
    "rows B0 = max (rows b) (r + 1)" "cols B0 = max (cols b) (c + 1)"
    "out_island_st B0 = out_island_st b" "out_connection_st B0 = out_connection_st b"
    "visitedmatrix B0 = visitedmatrix b" "max_visited_size B0 = max_visited_size b"
    "connections B0 = connections b"
    "\<And>m. pendbridges (islands B0 m) = (if m = n then word_of_int e else pendbridges (islands b m))"
    "\<And>m. expectbridges (islands B0 m) = (if m = n then word_of_int e else expectbridges (islands b m))"
    "\<And>m. row (islands B0 m) = (if m = n then word_of_int r else row (islands b m))"
    "\<And>m. col (islands B0 m) = (if m = n then word_of_int c else col (islands b m))"
    "\<And>m d. slot B0 m d = slot b m d" "\<And>m d. nbr B0 m d = nbr b m d"
    by (simp_all add: B0_def Let_def max_def)
  define B1 where "B1 = upd_island (set_isl_island (set_isl_island (set_isl_island
      (set_isl_island B0 (Isl n) RIGHT OutI) (Isl n) DOWN OutI) (Isl n) LEFT left) (Isl n) UP up)
      (Isl n) (\<lambda>x. x\<lparr>isl_connections := (\<lambda>_. OutC)\<rparr>)"
  have l: "find_from_island (set_isl_island (set_isl_island B0 (Isl n) RIGHT OutI) (Isl n) DOWN OutI)
       (int n) LEFT = Some left"
    by (subst find_from_island_LEFT) (auto simp: B0 assms(2) n_def)
  have u: "find_from_island (set_isl_island (set_isl_island (set_isl_island B0 (Isl n) RIGHT OutI)
       (Isl n) DOWN OutI) (Isl n) LEFT left) (int n) UP = Some up"
  proof -
    have "find_up_loop (set_isl_island (set_isl_island (set_isl_island B0 (Isl n) RIGHT OutI)
       (Isl n) DOWN OutI) (Isl n) LEFT left) (word_of_int c) n = find_up_loop b (word_of_int c) n"
      by (rule find_up_loop_cong) (simp add: B0)
    then show ?thesis
      by (subst find_from_island_UP) (simp_all add: B0 assms(3) n_def)
  qed
  have fc': "fill_connections B0 =
      (case connect_left B1 (Isl n) left of None \<Rightarrow> None | Some b5 \<Rightarrow> connect_up b5 n up)"
    unfolding fill_connections_def by (simp add: B0 Let_def l u B1_def cong: option.case_cong)
  have B1: "num_islands B1 = Suc n" "num_connections B1 = num_connections b"
    "max_connections B1 = max_connections b"
    "rows B1 = max (rows b) (r + 1)" "cols B1 = max (cols b) (c + 1)"
    "out_island_st B1 = out_island_st b" "out_connection_st B1 = out_connection_st b"
    "visitedmatrix B1 = visitedmatrix b" "max_visited_size B1 = max_visited_size b"
    "connections B1 = connections b"
    "\<And>m. pendbridges (islands B1 m) = (if m = n then word_of_int e else pendbridges (islands b m))"
    "\<And>m. expectbridges (islands B1 m) = (if m = n then word_of_int e else expectbridges (islands b m))"
    "\<And>m. row (islands B1 m) = (if m = n then word_of_int r else row (islands b m))"
    "\<And>m. col (islands B1 m) = (if m = n then word_of_int c else col (islands b m))"
    "\<And>m d. slot B1 m d = (if m = n then OutC else slot b m d)"
    by (auto simp: B1_def B0)
  have B1n: "nbr B1 m d = (if m = n then (if d = LEFT then left else if d = UP then up else OutI)
                           else nbr b m d)" for m d
    by (cases d) (auto simp: B1_def B0)
  note B1 = B1 B1n
  define nc where "nc = num_connections b"
  define bL where "bL = (case left of OutI \<Rightarrow> B1 | Isl l \<Rightarrow>
      set_isl_island (set_isl_connection (set_isl_connection
        (upd_connection (B1\<lparr>num_connections := nc + 1\<rparr>) (Conn nc) (new_connection left (Isl n)))
        (Isl n) LEFT (Conn nc)) left RIGHT (Conn nc)) left RIGHT (Isl n))"
  have cl: "connect_left B1 (Isl n) left = Some bL"
    using fc unfolding fc' bL_def
    by (cases left) (auto simp: connect_left_def next_connection_def B1 nc_def split: option.splits if_splits)
  define nu where "nu = (if left = OutI then nc else nc + 1)"
  have nbL: "num_connections bL = nu" "max_connections bL = max_connections b"
    by (cases left; simp add: bL_def nu_def B1 nc_def)+
  define bw where "bw = (case up of OutI \<Rightarrow> bL | Isl u \<Rightarrow>
      set_isl_island (set_isl_connection (set_isl_connection
        (upd_connection (bL\<lparr>num_connections := nu + 1\<rparr>) (Conn nu) (new_connection up (Isl n)))
        (Isl n) UP (Conn nu)) up DOWN (Conn nu)) up DOWN (Isl n))"
  have cu: "(case up of OutI \<Rightarrow> b5 = bw | Isl u \<Rightarrow> fill_crosses bw u n = Some b5)"
    using fc unfolding fc' cl bw_def
    by (cases up) (auto simp: connect_up_def next_connection_def nbL split: option.splits if_splits)
  have ltn: "l < n" if "left = Isl l" for l
    using that assms(2) by (auto simp: n_def split: if_splits)
  have utn: "u < n" if "up = Isl u" for u
    using that assms(3) find_up_loop_cases [of b "word_of_int c" n] by (auto simp: n_def)
  have w: "wired b r c e left up bw"
  proof (cases left; cases up)
    assume "left = OutI" "up = OutI"
    then show ?thesis
      by (simp add: wired_def bw_def bL_def B1 nu_def nc_def n_def [symmetric])
  next
    fix u assume "left = OutI" "up = Isl u"
    with utn [of u] show ?thesis
      by (auto simp add: wired_def bw_def bL_def B1 nu_def nc_def n_def [symmetric])
  next
    fix l assume "left = Isl l" "up = OutI"
    with ltn [of l] show ?thesis
      by (auto simp add: wired_def bw_def bL_def B1 nu_def nc_def n_def [symmetric])
  next
    fix l u assume "left = Isl l" "up = Isl u"
    with assms(4) have "l \<noteq> u" by auto
    with \<open>left = Isl l\<close> \<open>up = Isl u\<close> ltn [of l] utn [of u] show ?thesis
      by (auto simp add: wired_def bw_def bL_def B1 nu_def nc_def n_def [symmetric])
  qed
  have uc: "uncrossed b bw"
    by (cases left; cases up)
       (auto simp: uncrossed_def bw_def bL_def B1 nu_def nc_def)
  show ?thesis
    using w uc cu b' by (intro exI [of _ bw]) (auto simp: n_def split: iref.splits)
qed



lemma sint_word_of_int_small:
  assumes "0 \<le> x" "x < 127"
  shows "sint (word_of_int x :: cchar) = x"
proof -
  have "signed_take_bit 7 x = x"
    using assms by (intro signed_take_bit_int_eq_self) simp_all
  then show ?thesis by (simp add: sint_sbintrunc')
qed

lemma word_eq_sint_iff: "(w :: cchar) = word_of_int x \<longleftrightarrow> sint w = x" if "0 \<le> x" "x < 127"
proof
  assume "w = word_of_int x"
  then show "sint w = x" using sint_word_of_int_small [OF that] by simp
next
  assume "sint w = x"
  then have "word_of_int (sint w) = (word_of_int x :: cchar)" by simp
  then show "w = word_of_int x" by simp
qed

definition crossing_new :: "hboard \<Rightarrow> int \<Rightarrow> int \<Rightarrow> nat \<Rightarrow> nat \<Rightarrow> bool" where
  "crossing_new b r c u i \<longleftrightarrow>
     u < i \<and> i < num_islands b \<and> row_of b u < row_of b i \<and> row_of b i < r \<and> col_of b i < c
     \<and> (\<exists>h j. slot b i RIGHT = Conn h \<and> nbr b i RIGHT = Isl j \<and> c < col_of b j)"

definition step_facts :: "hboard \<Rightarrow> int \<Rightarrow> int \<Rightarrow> int \<Rightarrow> iref \<Rightarrow> iref \<Rightarrow> hboard \<Rightarrow> bool" where
  "step_facts b r c e left up b' \<longleftrightarrow>
     wired b r c e left up b'
     \<and> 0 \<le> r \<and> r < 127 \<and> 0 \<le> c \<and> c < 127 \<and> 1 \<le> e \<and> e \<le> 8
     \<and> (\<forall>i < num_islands b. row_of b i < r \<or> (row_of b i = r \<and> col_of b i < c))
     \<and> (case left of
           OutI \<Rightarrow> (\<forall>i < num_islands b. row_of b i < r)
         | Isl l \<Rightarrow> Suc l = num_islands b \<and> row_of b l = r \<and> col_of b l < c)
     \<and> (case up of
           OutI \<Rightarrow> (\<forall>m < num_islands b. col_of b m \<noteq> c)
         | Isl u \<Rightarrow> u < num_islands b \<and> col_of b u = c \<and> row_of b u < r
                   \<and> (\<forall>m. u < m \<and> m < num_islands b \<longrightarrow> col_of b m \<noteq> c))
     \<and> (\<forall>k < num_connections b'.
           set (firstcross (connections b' k)) =
             (if k < num_connections b then set (firstcross (connections b k)) else {})
             \<union> {x. \<exists>u i. up = Isl u \<and> Conn k = slot b' (num_islands b) UP
                        \<and> crossing_new b r c u i \<and> x = slot b i RIGHT}
             \<union> {x. \<exists>u i. up = Isl u \<and> x = slot b' (num_islands b) UP
                        \<and> crossing_new b r c u i \<and> slot b i RIGHT = Conn k})"

lemma board_inv_parts:
  assumes "board_inv b"
  shows "sorted_islands b" "in_grid b" "conns_ok b" "slots_ok b" "crosses_ok b" "outs_ok b"
    "fresh_state b"
  using assms by (simp_all add: board_inv_def)

lemma sorted_rows:
  assumes "sorted_islands b" "i < j" "j < num_islands b"
  shows "row_of b i \<le> row_of b j"
  using assms unfolding sorted_islands_def by fastforce

lemma sorted_index:
  assumes "sorted_islands b" "row_of b i < row_of b j" "i < num_islands b" "j < num_islands b"
  shows "i < j"
proof (rule ccontr)
  assume "\<not> i < j"
  then have "j = i \<or> j < i" by auto
  with assms(2) have "j < i" by auto
  from sorted_rows [OF assms(1) this assms(3)] assms(2) show False by simp
qed


lemma wired_same:
  assumes "wired b r c e left up bw" "same_but_crosses bw bc"
  shows "wired b r c e left up (bc\<lparr>max_bridges := x\<rparr>)"
  using assms(1) unfolding wired_def Let_def
  by (simp add: same_but_crosses_fields [OF assms(2)] slot_same [OF assms(2)])

lemma add_island_guards:
  assumes "add_island b r c e = Some b'"
  shows "0 \<le> r" "r < 127" "0 \<le> c" "c < 127" "1 \<le> e" "e \<le> 8"
    "0 < num_islands b \<Longrightarrow>
       \<not> (r < row_of b (num_islands b - 1)
          \<or> (r = row_of b (num_islands b - 1) \<and> c \<le> col_of b (num_islands b - 1)))"
  using assms by (auto simp: add_island_def row_of_def col_of_def split: if_splits)


lemma wired_getters:
  assumes "wired b r c e left up b'"
  shows "num_islands b' = Suc (num_islands b)"
    "i \<noteq> num_islands b \<Longrightarrow> row_of b' i = row_of b i"
    "i \<noteq> num_islands b \<Longrightarrow> col_of b' i = col_of b i"
    "i \<noteq> num_islands b \<Longrightarrow> pendbridges (islands b' i) = pendbridges (islands b i)"
    "i \<noteq> num_islands b \<Longrightarrow> expectbridges (islands b' i) = expectbridges (islands b i)"
    "row (islands b' (num_islands b)) = word_of_int r"
    "col (islands b' (num_islands b)) = word_of_int c"
    "pendbridges (islands b' (num_islands b)) = word_of_int e"
    "expectbridges (islands b' (num_islands b)) = word_of_int e"
    "rows b' = max (rows b) (r + 1)" "cols b' = max (cols b) (c + 1)"
    "out_island_st b' = out_island_st b" "out_connection_st b' = out_connection_st b"
    "visitedmatrix b' = visitedmatrix b" "max_visited_size b' = max_visited_size b"
  using assms unfolding wired_def Let_def row_of_def col_of_def by simp_all

lemma wired_slots:
  assumes "wired b r c e left up b'"
  shows "slot b' i d =
            (if i = num_islands b then
               (if d = LEFT then (if left = OutI then OutC else Conn (num_connections b))
                else if d = UP then
                  (if up = OutI then OutC
                   else Conn (if left = OutI then num_connections b else num_connections b + 1))
                else OutC)
             else if left = Isl i \<and> d = RIGHT then Conn (num_connections b)
             else if up = Isl i \<and> d = DOWN
               then Conn (if left = OutI then num_connections b else num_connections b + 1)
             else slot b i d)"
    and "nbr b' i d =
            (if i = num_islands b then (if d = LEFT then left else if d = UP then up else OutI)
             else if left = Isl i \<and> d = RIGHT then Isl (num_islands b)
             else if up = Isl i \<and> d = DOWN then Isl (num_islands b) else nbr b i d)"
  using assms unfolding wired_def Let_def by auto

lemma wired_conns:
  assumes "wired b r c e left up b'"
  shows "num_connections b' = (if up = OutI then 0 else 1) + (if left = OutI then 0 else 1)
            + num_connections b"
    and "k < num_connections b \<Longrightarrow> bridges (connections b' k) = bridges (connections b k)"
    and "k < num_connections b \<Longrightarrow>
           ppendbridges1 (connections b' k) = ppendbridges1 (connections b k)"
    and "k < num_connections b \<Longrightarrow>
           ppendbridges2 (connections b' k) = ppendbridges2 (connections b k)"
    and "left \<noteq> OutI \<Longrightarrow> bridges (connections b' (num_connections b)) = 0
            \<and> ppendbridges1 (connections b' (num_connections b)) = left
            \<and> ppendbridges2 (connections b' (num_connections b)) = Isl (num_islands b)"
    and "up \<noteq> OutI \<Longrightarrow> nu = (if left = OutI then num_connections b else num_connections b + 1) \<Longrightarrow>
           bridges (connections b' nu) = 0
            \<and> ppendbridges1 (connections b' nu) = up
            \<and> ppendbridges2 (connections b' nu) = Isl (num_islands b)"
  using assms unfolding wired_def Let_def by auto

lemma crosser_wired:
  assumes w: "wired b r c e left up bw"
    and sl: "slots_ok b"
    and L: "\<forall>l. left = Isl l \<longrightarrow> row_of b l = r"
    and r: "0 \<le> r" "r < 127"
    and i: "u < i" "i < num_islands b"
  shows "crosser bw u (num_islands b) c i \<longleftrightarrow> crossing_new b r c u i"
    and "crossing_new b r c u i \<Longrightarrow> slot bw i RIGHT = slot b i RIGHT"
proof -
  from i have ne: "i \<noteq> num_islands b" "u \<noteq> num_islands b" by auto
  have rn: "row_of bw (num_islands b) = r"
    using wired_getters(6) [OF w] r by (simp add: row_of_def sint_word_of_int_small)
  have right: "slot b i RIGHT = OutC \<and> nbr b i RIGHT = OutI
           \<or> (\<exists>k j. k < num_connections b \<and> j < num_islands b \<and> horizontal b k i j)"
    using sl i(2) unfolding slots_ok_def by blast
  have colj: "sint (col (get_island bw (Isl j))) = col_of b j" if "j < num_islands b" for j
    using wired_getters(3) [OF w, of j] that by (simp add: get_island_def col_of_def)
  show "crosser bw u (num_islands b) c i \<longleftrightarrow> crossing_new b r c u i"
  proof (cases "left = Isl i")
    case True
    with L have "row_of b i = r" by simp
    then show ?thesis
      using ne by (simp add: crosser_def crossing_new_def wired_getters(2) [OF w] rn)
  next
    case False
    then have nb: "nbr bw i RIGHT = nbr b i RIGHT"
      using ne by (simp add: wired_slots(2) [OF w])
    from right show ?thesis
    proof (elim disjE exE conjE)
      assume "slot b i RIGHT = OutC" "nbr b i RIGHT = OutI"
      then show ?thesis by (simp add: crosser_def crossing_new_def nb)
    next
      fix k j assume kj: "k < num_connections b" "j < num_islands b" "horizontal b k i j"
      then have "nbr b i RIGHT = Isl j" "slot b i RIGHT = Conn k" by (simp_all add: horizontal_def)
      then show ?thesis
        using ne i kj(2)
        by (simp add: crosser_def crossing_new_def nb wired_getters(2,3) [OF w] rn colj)
    qed
  qed
  show "slot bw i RIGHT = slot b i RIGHT" if "crossing_new b r c u i"
  proof -
    from that L have "left \<noteq> Isl i" by (auto simp: crossing_new_def)
    then show ?thesis using ne by (simp add: wired_slots(1) [OF w])
  qed
qed

lemma add_island_step:
  assumes inv: "board_inv b" and add: "add_island b r c e = Some b'"
  shows "\<exists>left up. step_facts b r c e left up b'"
proof -
  define n where "n = num_islands b"
  note g = add_island_guards [OF add]
  note srt = board_inv_parts(1) [OF inv]
  have lex: "row_of b i < r \<or> (row_of b i = r \<and> col_of b i < c)" if "i < n" for i
  proof (cases "Suc i = n")
    case True
    with g(7) show ?thesis by (auto simp: n_def [symmetric])
  next
    case False
    with that have lt: "i < n - 1" "n - 1 < num_islands b" "0 < num_islands b"
      by (auto simp: n_def)
    from srt lt(1,2) have "row_of b i < row_of b (n - 1)
        \<or> (row_of b i = row_of b (n - 1) \<and> col_of b i < col_of b (n - 1))"
      unfolding sorted_islands_def by blast
    with g(7) [OF lt(3)] show ?thesis by (auto simp: n_def [symmetric])
  qed
  define left where "left = (if 0 < num_islands b \<and> \<not> sint (row (islands b (num_islands b - 1))) < sint (word_of_int r :: cchar)
                 then Isl (num_islands b - 1) else OutI)"
  define up where "up = find_up_loop b (word_of_int c) (num_islands b)"
  have sr: "sint (word_of_int r :: cchar) = r" and sc: "sint (word_of_int c :: cchar) = c"
    using g by (simp_all add: sint_word_of_int_small)
  have ceq: "col (islands b m) = word_of_int c \<longleftrightarrow> col_of b m = c" for m
    using word_eq_sint_iff [OF g(3,4)] by (simp add: col_of_def)
  have L: "(case left of
           OutI \<Rightarrow> (\<forall>i < num_islands b. row_of b i < r)
         | Isl l \<Rightarrow> Suc l = num_islands b \<and> row_of b l = r \<and> col_of b l < c)"
  proof (cases "0 < n \<and> \<not> row_of b (n - 1) < r")
    case True
    then have "left = Isl (n - 1)" by (simp add: left_def sr n_def row_of_def)
    moreover from True lex [of "n - 1"] have "row_of b (n - 1) = r \<and> col_of b (n - 1) < c" by auto
    ultimately show ?thesis using True by (simp add: n_def)
  next
    case False
    then have l: "left = OutI" by (auto simp: left_def sr n_def row_of_def)
    have "row_of b i < r" if "i < n" for i
    proof -
      from that False have "row_of b (n - 1) < r" by auto
      moreover have "row_of b i \<le> row_of b (n - 1)"
      proof (cases "i = n - 1")
        case False
        with that have "i < n - 1" "n - 1 < num_islands b" by (auto simp: n_def)
        then show ?thesis by (rule sorted_rows [OF srt])
      qed simp
      ultimately show ?thesis by simp
    qed
    with l show ?thesis by (simp add: n_def)
  qed
  have U: "(case up of
           OutI \<Rightarrow> (\<forall>m < num_islands b. col_of b m \<noteq> c)
         | Isl u \<Rightarrow> u < num_islands b \<and> col_of b u = c \<and> row_of b u < r
                   \<and> (\<forall>m. u < m \<and> m < num_islands b \<longrightarrow> col_of b m \<noteq> c))"
  proof -
    have "row_of b u < r" if "u < n" "col_of b u = c" for u
      using lex [OF that(1)] that(2) by auto
    then show ?thesis
      using find_up_loop_cases [of b "word_of_int c" n]
      by (auto simp: up_def ceq n_def [symmetric])
  qed
  have ne: "\<forall>i. left = Isl i \<longrightarrow> up \<noteq> Isl i"
    using L U by (auto split: iref.splits)
  from add_island_wired [OF add left_def up_def ne]
  obtain bw where w: "wired b r c e left up bw" and uc: "uncrossed b bw"
    and fin: "(case up of
                 OutI \<Rightarrow> b' = bw\<lparr>max_bridges := max_bridges bw + word_of_int e\<rparr>
               | Isl u \<Rightarrow> (\<exists>bc. fill_crosses bw u (num_islands b) = Some bc
                           \<and> b' = bc\<lparr>max_bridges := max_bridges bc + word_of_int e\<rparr>))"
    by blast
  have "wired b r c e left up b' \<and> (\<forall>k < num_connections b'.
           set (firstcross (connections b' k)) =
             (if k < num_connections b then set (firstcross (connections b k)) else {})
             \<union> {x. \<exists>u i. up = Isl u \<and> Conn k = slot b' (num_islands b) UP
                        \<and> crossing_new b r c u i \<and> x = slot b i RIGHT}
             \<union> {x. \<exists>u i. up = Isl u \<and> x = slot b' (num_islands b) UP
                        \<and> crossing_new b r c u i \<and> slot b i RIGHT = Conn k})"
  proof (cases up)
    case OutI
    with fin have b': "b' = bw\<lparr>max_bridges := max_bridges bw + word_of_int e\<rparr>" by simp
    have "wired b r c e left up b'"
      unfolding b' by (rule wired_same [OF w same_but_crosses_refl])
    moreover have "firstcross (connections b' k) =
        (if k < num_connections b then firstcross (connections b k) else [])"
      if "k < num_connections b'" for k
      using uc that by (simp add: uncrossed_def b')
    ultimately show ?thesis using OutI by simp
  next
    case (Isl u)
    with fin obtain bc where bc: "fill_crosses bw u n = Some bc"
      and b': "b' = bc\<lparr>max_bridges := max_bridges bc + word_of_int e\<rparr>"
      by (auto simp: n_def)
    from U Isl have u: "u < n" "col_of b u = c" by (simp_all add: n_def)
    define nu where "nu = (if left = OutI then num_connections b else num_connections b + 1)"
    have sv: "slot bw u DOWN = Conn nu" "slot bw n UP = Conn nu"
      using u(1) Isl by (simp_all add: wired_slots(1) [OF w] n_def [symmetric] nu_def)
    have cu: "sint (col (islands bw u)) = c"
      using wired_getters(3) [OF w, of u] u by (simp add: col_of_def n_def)
    from bc have loop: "fill_crosses_loop bw u n c (Conn nu) (u + 1) = Some bc"
      using sv(1) by (simp add: fill_crosses_def cu slot_def)
    have Lr: "\<forall>l. left = Isl l \<longrightarrow> row_of b l = r"
      using L by (auto split: iref.splits)
    note cw = crosser_wired [OF w board_inv_parts(4) [OF inv] Lr g(1,2), folded n_def]
    have pre: "\<forall>i. u + 1 \<le> i \<and> i < n \<and> crosser bw u n c i \<longrightarrow> (\<exists>h. slot bw i RIGHT = Conn h)"
    proof (intro allI impI)
      fix i assume i: "u + 1 \<le> i \<and> i < n \<and> crosser bw u n c i"
      then have cn: "crossing_new b r c u i" using cw(1) [of u i] by simp
      then obtain h where "slot b i RIGHT = Conn h" by (auto simp: crossing_new_def)
      with cw(2) [OF _ _ cn] i show "\<exists>h. slot bw i RIGHT = Conn h" by simp
    qed
    from fill_crosses_loop_effect [OF loop pre]
    have sbc: "same_but_crosses bw bc"
      and sets: "\<And>k. set (firstcross (connections bc k)) = set (firstcross (connections bw k))
      \<union> (if k = nu then {slot bw i RIGHT | i. u + 1 \<le> i \<and> i < n \<and> crosser bw u n c i} else {})
      \<union> (if \<exists>i. u + 1 \<le> i \<and> i < n \<and> crosser bw u n c i \<and> slot bw i RIGHT = Conn k
         then {Conn nu} else {})"
      by blast+
    have w': "wired b r c e left up b'"
      unfolding b' by (rule wired_same [OF w sbc])
    have nc': "num_connections b' = num_connections bw"
      using same_but_crosses_fields(3) [OF sbc] by (simp add: b')
    have sv': "slot b' n UP = Conn nu"
      using slot_same(1) [OF sbc, of n UP] sv(2) by (simp add: b')
    have old: "set (firstcross (connections bw k)) =
        (if k < num_connections b then set (firstcross (connections b k)) else {})"
      if "k < num_connections b'" for k
      using uc that nc' by (simp add: uncrossed_def)
    have cn_iff: "(u + 1 \<le> i \<and> i < n \<and> crosser bw u n c i) \<longleftrightarrow> crossing_new b r c u i" for i
    proof (cases "u < i \<and> i < n")
      case True
      then show ?thesis using cw(1) [of u i] by auto
    next
      case False
      then show ?thesis by (auto simp: crossing_new_def n_def)
    qed
    have s1: "{slot bw i RIGHT | i. u + 1 \<le> i \<and> i < n \<and> crosser bw u n c i}
        = {x. \<exists>i. crossing_new b r c u i \<and> x = slot b i RIGHT}"
    proof -
      have "slot bw i RIGHT = slot b i RIGHT" if "crossing_new b r c u i" for i
        using that cw(2) [OF _ _ that] by (simp add: crossing_new_def n_def)
      then show ?thesis unfolding cn_iff by (auto; metis)
    qed
    have s2: "(\<exists>i. u + 1 \<le> i \<and> i < n \<and> crosser bw u n c i \<and> slot bw i RIGHT = Conn k)
        \<longleftrightarrow> (\<exists>i. crossing_new b r c u i \<and> slot b i RIGHT = Conn k)" for k
    proof -
      have "slot bw i RIGHT = slot b i RIGHT" if "crossing_new b r c u i" for i
        using that cw(2) [OF _ _ that] by (simp add: crossing_new_def n_def)
      then show ?thesis
        using cn_iff by (metis (no_types, lifting))
    qed
    have "set (firstcross (connections b' k)) =
             (if k < num_connections b then set (firstcross (connections b k)) else {})
             \<union> {x. \<exists>u i. up = Isl u \<and> Conn k = slot b' (num_islands b) UP
                        \<and> crossing_new b r c u i \<and> x = slot b i RIGHT}
             \<union> {x. \<exists>u i. up = Isl u \<and> x = slot b' (num_islands b) UP
                        \<and> crossing_new b r c u i \<and> slot b i RIGHT = Conn k}"
      if "k < num_connections b'" for k
    proof -
      have "set (firstcross (connections b' k)) = set (firstcross (connections bc k))"
        by (simp add: b')
      also note sets [of k]
      finally show ?thesis
        unfolding old [OF that] s1 s2 using Isl sv' by (auto simp: n_def [symmetric])
    qed
    with w' show ?thesis by blast
  qed
  then have "step_facts b r c e left up b'"
    unfolding step_facts_def using g(1-6) L U lex [unfolded n_def] by simp
  then show ?thesis by blast
qed



lemma step_factsD:
  assumes "step_facts b r c e left up b'"
  shows "wired b r c e left up b'"
    and "0 \<le> r" "r < 127" "0 \<le> c" "c < 127" "1 \<le> e" "e \<le> 8"
    and "\<And>i. i < num_islands b \<Longrightarrow> row_of b i < r \<or> (row_of b i = r \<and> col_of b i < c)"
    and "left = OutI \<Longrightarrow> i < num_islands b \<Longrightarrow> row_of b i < r"
    and "left = Isl l \<Longrightarrow> Suc l = num_islands b \<and> row_of b l = r \<and> col_of b l < c"
    and "up = OutI \<Longrightarrow> m < num_islands b \<Longrightarrow> col_of b m \<noteq> c"
    and "up = Isl u \<Longrightarrow> u < num_islands b \<and> col_of b u = c \<and> row_of b u < r
                   \<and> (\<forall>m. u < m \<and> m < num_islands b \<longrightarrow> col_of b m \<noteq> c)"
  using assms unfolding step_facts_def by (auto split: iref.splits)

lemma step_new_island:
  assumes "step_facts b r c e left up b'"
  shows "row_of b' (num_islands b) = r" "col_of b' (num_islands b) = c"
    "sint (expectbridges (islands b' (num_islands b))) = e"
    "pendbridges (islands b' (num_islands b)) = expectbridges (islands b' (num_islands b))"
  using step_factsD(2-7) [OF assms] wired_getters(6-9) [OF step_factsD(1) [OF assms]]
  by (simp_all add: row_of_def col_of_def sint_word_of_int_small)

lemma horizontal_step:
  assumes s: "step_facts b r c e left up b'"
    and k: "k < num_connections b" and j: "j < num_islands b" and h: "horizontal b k i j"
  shows "horizontal b' k i j"
proof -
  note w = step_factsD(1) [OF s]
  from h have ij: "j = Suc i" by (simp add: horizontal_def)
  with j have ne: "i \<noteq> num_islands b" "j \<noteq> num_islands b" "left \<noteq> Isl i"
    using step_factsD(10) [OF s, of i] by auto
  show ?thesis
    using h ne k
    by (auto simp: horizontal_def wired_conns(3,4) [OF w] wired_slots [OF w] wired_getters(2,3) [OF w])
qed

lemma vertical_step:
  assumes s: "step_facts b r c e left up b'"
    and k: "k < num_connections b" and j: "j < num_islands b" and v: "vertical b k i j"
  shows "vertical b' k i j"
proof -
  note w = step_factsD(1) [OF s]
  from v have ij: "i < j" "col_of b i = col_of b j" by (simp_all add: vertical_def)
  have "up \<noteq> Isl i"
  proof
    assume "up = Isl i"
    from step_factsD(12) [OF s this] ij j show False by auto
  qed
  moreover from ij j have "i \<noteq> num_islands b" "j \<noteq> num_islands b" by auto
  moreover have "m \<noteq> num_islands b" if "m < j" for m using that j by auto
  ultimately show ?thesis
    using v k
    by (auto simp: vertical_def wired_conns(3,4) [OF w] wired_slots [OF w] wired_getters(2,3) [OF w])
qed

lemma conn_endpoints:
  assumes "horizontal b k i j \<or> vertical b k i j"
  shows "ppendbridges1 (connections b k) = Isl i" "ppendbridges2 (connections b k) = Isl j" "i < j"
  using assms by (auto simp: horizontal_def vertical_def)

lemma horizontal_back:
  assumes s: "step_facts b r c e left up b'" and c: "conns_ok b"
    and k: "k < num_connections b" and h: "horizontal b' k i j"
  shows "horizontal b k i j \<and> j < num_islands b"
proof -
  note w = step_factsD(1) [OF s]
  from c k obtain i' j' where j': "j' < num_islands b"
    and hv: "horizontal b k i' j' \<or> vertical b k i' j'"
    unfolding conns_ok_def by blast
  from conn_endpoints [OF hv] conn_endpoints(1,2) [of b' k i j] h k
  have e: "i' = i" "j' = j" "i < j"
    by (simp_all add: wired_conns(3,4) [OF w])
  from hv show ?thesis
  proof
    assume "horizontal b k i' j'"
    with e j' show ?thesis by simp
  next
    assume "vertical b k i' j'"
    then have "col_of b i = col_of b j" by (simp add: vertical_def e)
    moreover from h have "col_of b' i < col_of b' j" by (auto simp: horizontal_def)
    moreover from e j' have "i \<noteq> num_islands b" "j \<noteq> num_islands b" by auto
    ultimately show ?thesis by (simp add: wired_getters(3) [OF w])
  qed
qed

lemma vertical_back:
  assumes s: "step_facts b r c e left up b'" and c: "conns_ok b"
    and k: "k < num_connections b" and v: "vertical b' k i j"
  shows "vertical b k i j \<and> j < num_islands b"
proof -
  note w = step_factsD(1) [OF s]
  from c k obtain i' j' where j': "j' < num_islands b"
    and hv: "horizontal b k i' j' \<or> vertical b k i' j'"
    unfolding conns_ok_def by blast
  from conn_endpoints [OF hv] conn_endpoints(1,2) [of b' k i j] v k
  have e: "i' = i" "j' = j" "i < j"
    by (simp_all add: wired_conns(3,4) [OF w])
  from hv show ?thesis
  proof
    assume "vertical b k i' j'"
    with e j' show ?thesis by simp
  next
    assume "horizontal b k i' j'"
    then have "row_of b i = row_of b j" by (simp add: horizontal_def e)
    moreover from v have "row_of b' i < row_of b' j" by (simp add: vertical_def)
    moreover from e j' have "i \<noteq> num_islands b" "j \<noteq> num_islands b" by auto
    ultimately show ?thesis by (simp add: wired_getters(2) [OF w])
  qed
qed

lemma new_horizontal:
  assumes s: "step_facts b r c e left up b'" and l: "left = Isl l"
  shows "horizontal b' (num_connections b) l (num_islands b)"
proof -
  note w = step_factsD(1) [OF s]
  from step_factsD(10) [OF s l] have f: "Suc l = num_islands b" "row_of b l = r" "col_of b l < c"
    by simp_all
  then have ne: "l \<noteq> num_islands b" by auto
  show ?thesis
    using f ne l wired_conns(5) [OF w] step_new_island(1,2) [OF s]
    by (simp add: horizontal_def wired_slots [OF w] wired_getters(2,3) [OF w])
qed

lemma new_vertical:
  assumes s: "step_facts b r c e left up b'" and u: "up = Isl u"
    and nu: "nu = (if left = OutI then num_connections b else num_connections b + 1)"
  shows "vertical b' nu u (num_islands b)"
proof -
  note w = step_factsD(1) [OF s]
  from step_factsD(12) [OF s u] have f: "u < num_islands b" "col_of b u = c" "row_of b u < r"
    "\<forall>m. u < m \<and> m < num_islands b \<longrightarrow> col_of b m \<noteq> c"
    by simp_all
  then have ne: "u \<noteq> num_islands b" by auto
  have lu: "left \<noteq> Isl u"
    using step_factsD(10) [OF s, of u] f by auto
  have near: "col_of b' m \<noteq> col_of b u" if "u < m" "m < num_islands b" for m
    using that f wired_getters(3) [OF w, of m] by auto
  show ?thesis
    using f(1-3) ne u lu wired_conns(6) [OF w _ nu] step_new_island(1,2) [OF s] near
    by (simp add: vertical_def wired_slots [OF w] wired_getters(2,3) [OF w] nu)
qed


lemma step_sorted:
  assumes s: "step_facts b r c e left up b'" and i: "sorted_islands b"
  shows "sorted_islands b'"
  unfolding sorted_islands_def
proof (intro allI impI)
  note w = step_factsD(1) [OF s]
  fix i j assume ij: "i < j \<and> j < num_islands b'"
  then have j: "j < Suc (num_islands b)" by (simp add: wired_getters(1) [OF w])
  show "row_of b' i < row_of b' j \<or> (row_of b' i = row_of b' j \<and> col_of b' i < col_of b' j)"
  proof (cases "j = num_islands b")
    case True
    with ij have "i < num_islands b" by simp
    from step_factsD(8) [OF s this] this show ?thesis
      by (simp add: True step_new_island(1,2) [OF s] wired_getters(2,3) [OF w])
  next
    case False
    with j ij have "i < j \<and> j < num_islands b" by simp
    with i have "row_of b i < row_of b j \<or> (row_of b i = row_of b j \<and> col_of b i < col_of b j)"
      unfolding sorted_islands_def by blast
    moreover from \<open>i < j \<and> j < num_islands b\<close> have "i \<noteq> num_islands b" "j \<noteq> num_islands b"
      by auto
    ultimately show ?thesis by (simp add: wired_getters(2,3) [OF w])
  qed
qed

lemma step_in_grid:
  assumes s: "step_facts b r c e left up b'" and g: "in_grid b"
  shows "in_grid b'"
proof -
  note w = step_factsD(1) [OF s]
  note f = step_factsD(2-7) [OF s]
  have "0 \<le> row_of b' i \<and> row_of b' i < rows b' \<and> 0 \<le> col_of b' i \<and> col_of b' i < cols b'
      \<and> 1 \<le> sint (expectbridges (islands b' i)) \<and> sint (expectbridges (islands b' i)) \<le> 8"
    if "i < num_islands b'" for i
  proof (cases "i = num_islands b")
    case True
    then show ?thesis
      using f by (auto simp: step_new_island [OF s] wired_getters(10,11) [OF w])
  next
    case False
    with that have "i < num_islands b" by (simp add: wired_getters(1) [OF w])
    with g have "0 \<le> row_of b i \<and> row_of b i < rows b \<and> 0 \<le> col_of b i \<and> col_of b i < cols b
      \<and> 1 \<le> sint (expectbridges (islands b i)) \<and> sint (expectbridges (islands b i)) \<le> 8"
      unfolding in_grid_def by blast
    with False show ?thesis
      by (auto simp: wired_getters(2,3,5,10,11) [OF w])
  qed
  moreover have "0 \<le> rows b' \<and> rows b' \<le> 127 \<and> 0 \<le> cols b' \<and> cols b' \<le> 127"
    using g f by (auto simp: in_grid_def wired_getters(10,11) [OF w])
  ultimately show ?thesis unfolding in_grid_def by blast
qed

lemma step_new_conns:
  assumes s: "step_facts b r c e left up b'"
    and k: "k < num_connections b'" "\<not> k < num_connections b"
  shows "(\<exists>l. left = Isl l \<and> k = num_connections b \<and> horizontal b' k l (num_islands b))
       \<or> (\<exists>u. up = Isl u \<and> k = (if left = OutI then num_connections b else num_connections b + 1)
              \<and> vertical b' k u (num_islands b))"
proof -
  note w = step_factsD(1) [OF s]
  from k wired_conns(1) [OF w]
  have "(left \<noteq> OutI \<and> k = num_connections b)
      \<or> (up \<noteq> OutI \<and> k = (if left = OutI then num_connections b else num_connections b + 1))"
    by (auto split: if_splits)
  then show ?thesis
  proof
    assume a: "left \<noteq> OutI \<and> k = num_connections b"
    then obtain l where "left = Isl l" by (cases left) auto
    with a new_horizontal [OF s this] show ?thesis by simp
  next
    assume a: "up \<noteq> OutI \<and> k = (if left = OutI then num_connections b else num_connections b + 1)"
    then obtain u where "up = Isl u" by (cases up) auto
    with a new_vertical [OF s this, of k] show ?thesis by simp
  qed
qed

lemma step_conns_ok:
  assumes s: "step_facts b r c e left up b'" and c: "conns_ok b"
  shows "conns_ok b'"
  unfolding conns_ok_def
proof (intro allI impI)
  note w = step_factsD(1) [OF s]
  fix k assume k: "k < num_connections b'"
  show "\<exists>i j. j < num_islands b' \<and> (horizontal b' k i j \<or> vertical b' k i j)"
  proof (cases "k < num_connections b")
    case True
    with c obtain i j where j: "j < num_islands b" and "horizontal b k i j \<or> vertical b k i j"
      unfolding conns_ok_def by blast
    with horizontal_step [OF s True j] vertical_step [OF s True j]
    have "horizontal b' k i j \<or> vertical b' k i j" by blast
    moreover from j have "j < num_islands b'" by (simp add: wired_getters(1) [OF w])
    ultimately show ?thesis by blast
  next
    case False
    from step_new_conns [OF s k False] show ?thesis
      by (auto simp: wired_getters(1) [OF w])
  qed
qed

lemma step_slots_ok:
  assumes s: "step_facts b r c e left up b'" and sl: "slots_ok b"
  shows "slots_ok b'"
  unfolding slots_ok_def
proof (intro allI impI)
  note w = step_factsD(1) [OF s]
  define nu where "nu = (if left = OutI then num_connections b else num_connections b + 1)"
  have nc: "num_connections b \<le> num_connections b'"
    "left \<noteq> OutI \<Longrightarrow> num_connections b < num_connections b'"
    "up \<noteq> OutI \<Longrightarrow> nu < num_connections b'"
    using wired_conns(1) [OF w] by (auto simp: nu_def)
  have n': "num_islands b' = Suc (num_islands b)" by (rule wired_getters(1) [OF w])
  fix i assume "i < num_islands b'"
  then have i: "i < Suc (num_islands b)" by (simp add: n')
  show "(slot b' i RIGHT = OutC \<and> nbr b' i RIGHT = OutI
           \<or> (\<exists>k j. k < num_connections b' \<and> j < num_islands b' \<and> horizontal b' k i j))
      \<and> (slot b' i LEFT = OutC \<and> nbr b' i LEFT = OutI
           \<or> (\<exists>k j. k < num_connections b' \<and> horizontal b' k j i))
      \<and> (slot b' i DOWN = OutC \<and> nbr b' i DOWN = OutI
           \<or> (\<exists>k j. k < num_connections b' \<and> j < num_islands b' \<and> vertical b' k i j))
      \<and> (slot b' i UP = OutC \<and> nbr b' i UP = OutI
           \<or> (\<exists>k j. k < num_connections b' \<and> vertical b' k j i))"
  proof (cases "i = num_islands b")
    case True
    have 1: "slot b' i RIGHT = OutC \<and> nbr b' i RIGHT = OutI"
      and 3: "slot b' i DOWN = OutC \<and> nbr b' i DOWN = OutI"
      by (simp_all add: True wired_slots [OF w])
    have 2: "slot b' i LEFT = OutC \<and> nbr b' i LEFT = OutI
           \<or> (\<exists>k j. k < num_connections b' \<and> horizontal b' k j i)"
    proof (cases left)
      case OutI
      then show ?thesis by (simp add: True wired_slots [OF w])
    next
      case (Isl l)
      from new_horizontal [OF s this] nc(2) Isl show ?thesis unfolding True by blast
    qed
    have 4: "slot b' i UP = OutC \<and> nbr b' i UP = OutI
           \<or> (\<exists>k j. k < num_connections b' \<and> vertical b' k j i)"
    proof (cases up)
      case OutI
      then show ?thesis by (simp add: True wired_slots [OF w])
    next
      case (Isl u)
      from new_vertical [OF s this nu_def] nc(3) Isl show ?thesis unfolding True by blast
    qed
    from 1 2 3 4 show ?thesis by blast
  next
    case False
    with i have i: "i < num_islands b" by simp
    from sl i have old:
      "slot b i RIGHT = OutC \<and> nbr b i RIGHT = OutI
           \<or> (\<exists>k j. k < num_connections b \<and> j < num_islands b \<and> horizontal b k i j)"
      "slot b i LEFT = OutC \<and> nbr b i LEFT = OutI
           \<or> (\<exists>k j. k < num_connections b \<and> horizontal b k j i)"
      "slot b i DOWN = OutC \<and> nbr b i DOWN = OutI
           \<or> (\<exists>k j. k < num_connections b \<and> j < num_islands b \<and> vertical b k i j)"
      "slot b i UP = OutC \<and> nbr b i UP = OutI
           \<or> (\<exists>k j. k < num_connections b \<and> vertical b k j i)"
      unfolding slots_ok_def by blast+
    have 1: "slot b' i RIGHT = OutC \<and> nbr b' i RIGHT = OutI
           \<or> (\<exists>k j. k < num_connections b' \<and> j < num_islands b' \<and> horizontal b' k i j)"
    proof (cases "left = Isl i")
      case True
      from new_horizontal [OF s this] nc(2) True show ?thesis unfolding n' by auto
    next
      case nl: False
      from old(1) show ?thesis
      proof
        assume "slot b i RIGHT = OutC \<and> nbr b i RIGHT = OutI"
        with nl False show ?thesis by (simp add: wired_slots [OF w])
      next
        assume "\<exists>k j. k < num_connections b \<and> j < num_islands b \<and> horizontal b k i j"
        then obtain k j where "k < num_connections b" "j < num_islands b" "horizontal b k i j"
          by blast
        with horizontal_step [OF s this] nc(1) show ?thesis unfolding n' by (meson less_Suc_eq less_le_trans)
      qed
    qed
    have 2: "slot b' i LEFT = OutC \<and> nbr b' i LEFT = OutI
           \<or> (\<exists>k j. k < num_connections b' \<and> horizontal b' k j i)"
      using old(2)
    proof
      assume "slot b i LEFT = OutC \<and> nbr b i LEFT = OutI"
      with False show ?thesis by (simp add: wired_slots [OF w])
    next
      assume "\<exists>k j. k < num_connections b \<and> horizontal b k j i"
      then obtain k j where "k < num_connections b" "horizontal b k j i" by blast
      with horizontal_step [OF s this(1) i this(2)] nc(1) show ?thesis
        by (meson less_le_trans)
    qed
    have 3: "slot b' i DOWN = OutC \<and> nbr b' i DOWN = OutI
           \<or> (\<exists>k j. k < num_connections b' \<and> j < num_islands b' \<and> vertical b' k i j)"
    proof (cases "up = Isl i")
      case True
      from new_vertical [OF s this nu_def] nc(3) True show ?thesis unfolding n' by auto
    next
      case nl: False
      from old(3) show ?thesis
      proof
        assume "slot b i DOWN = OutC \<and> nbr b i DOWN = OutI"
        with nl False show ?thesis by (simp add: wired_slots [OF w])
      next
        assume "\<exists>k j. k < num_connections b \<and> j < num_islands b \<and> vertical b k i j"
        then obtain k j where "k < num_connections b" "j < num_islands b" "vertical b k i j"
          by blast
        with vertical_step [OF s this] nc(1) show ?thesis unfolding n' by (meson less_Suc_eq less_le_trans)
      qed
    qed
    have 4: "slot b' i UP = OutC \<and> nbr b' i UP = OutI
           \<or> (\<exists>k j. k < num_connections b' \<and> vertical b' k j i)"
      using old(4)
    proof
      assume "slot b i UP = OutC \<and> nbr b i UP = OutI"
      with False show ?thesis by (simp add: wired_slots [OF w])
    next
      assume "\<exists>k j. k < num_connections b \<and> vertical b k j i"
      then obtain k j where "k < num_connections b" "vertical b k j i" by blast
      with vertical_step [OF s this(1) i this(2)] nc(1) show ?thesis
        by (meson less_le_trans)
    qed
    from 1 2 3 4 show ?thesis by blast
  qed
qed

lemma step_outs_ok:
  assumes s: "step_facts b r c e left up b'" and o: "outs_ok b"
  shows "outs_ok b'"
  using o wired_getters(12,13) [OF step_factsD(1) [OF s]] by (simp add: outs_ok_def)

lemma step_fresh:
  assumes s: "step_facts b r c e left up b'" and f: "fresh_state b"
  shows "fresh_state b'"
proof -
  note w = step_factsD(1) [OF s]
  have "bridges (connections b' k) = 0" if "k < num_connections b'" for k
  proof (cases "k < num_connections b")
    case True
    with f show ?thesis by (simp add: fresh_state_def wired_conns(2) [OF w])
  next
    case False
    from step_new_conns [OF s that False] show ?thesis
      using wired_conns(5) [OF w] wired_conns(6) [OF w _ refl] by auto
  qed
  moreover have "pendbridges (islands b' i) = expectbridges (islands b' i)"
    if "i < num_islands b'" for i
  proof (cases "i = num_islands b")
    case True
    then show ?thesis by (simp add: step_new_island(4) [OF s])
  next
    case False
    with that have "i < num_islands b" by (simp add: wired_getters(1) [OF w])
    with f False show ?thesis by (simp add: fresh_state_def wired_getters(4,5) [OF w])
  qed
  ultimately show ?thesis unfolding fresh_state_def by blast
qed



lemma conn_second_lt:
  assumes c: "conns_ok b" and k: "k < num_connections b"
    and hv: "horizontal b k i j \<or> vertical b k i j"
  shows "j < num_islands b"
proof -
  from c k obtain i' j' where j': "j' < num_islands b"
    and hv': "horizontal b k i' j' \<or> vertical b k i' j'"
    unfolding conns_ok_def by blast
  from conn_endpoints(2) [OF hv] conn_endpoints(2) [OF hv'] have "j' = j" by simp
  with j' show ?thesis by simp
qed

lemma geom_cross_step:
  assumes s: "step_facts b r c e left up b'" and c: "conns_ok b"
    and v: "v < num_connections b" and h: "h < num_connections b"
    and g: "geom_cross b v h"
  shows "geom_cross b' v h"
proof -
  note w = step_factsD(1) [OF s]
  from g obtain u d l r' where vv: "vertical b v u d" and hh: "horizontal b h l r'"
    and geo: "row_of b u < row_of b l" "row_of b l < row_of b d"
      "col_of b l < col_of b u" "col_of b u < col_of b r'"
    unfolding geom_cross_def by blast
  have d: "d < num_islands b" using conn_second_lt [OF c v] vv by blast
  have r': "r' < num_islands b" using conn_second_lt [OF c h] hh by blast
  from conn_endpoints(3) [of b v u d] vv d have u: "u < num_islands b" by simp
  from conn_endpoints(3) [of b h l r'] hh r' have l: "l < num_islands b" by simp
  from u d l r' have ne: "u \<noteq> num_islands b" "d \<noteq> num_islands b" "l \<noteq> num_islands b"
    "r' \<noteq> num_islands b" by auto
  from vertical_step [OF s v d vv] horizontal_step [OF s h r' hh] geo ne
  show ?thesis
    unfolding geom_cross_def
    by (intro exI [of _ u] exI [of _ d] exI [of _ l] exI [of _ r'])
       (simp add: wired_getters(2,3) [OF w])
qed

lemma slot_right_horizontal:
  assumes sl: "slots_ok b" and i: "i < num_islands b" and "slot b i RIGHT = Conn h"
  shows "h < num_connections b \<and> (\<exists>j < num_islands b. horizontal b h i j \<and> nbr b i RIGHT = Isl j)"
proof -
  from sl i have "slot b i RIGHT = OutC \<and> nbr b i RIGHT = OutI
           \<or> (\<exists>k j. k < num_connections b \<and> j < num_islands b \<and> horizontal b k i j)"
    unfolding slots_ok_def by blast
  with assms(3) obtain k j where kj: "k < num_connections b" "j < num_islands b" "horizontal b k i j"
    by auto
  then have "slot b i RIGHT = Conn k" "nbr b i RIGHT = Isl j" by (simp_all add: horizontal_def)
  with assms(3) kj show ?thesis by auto
qed

lemma crossing_new_geom:
  assumes s: "step_facts b r c e left up b'" and inv: "board_inv b"
    and up: "up = Isl u" and cn: "crossing_new b r c u i" and h: "slot b i RIGHT = Conn h"
    and nu: "nu = (if left = OutI then num_connections b else num_connections b + 1)"
  shows "h < num_connections b" "geom_cross b' nu h"
proof -
  note w = step_factsD(1) [OF s]
  from cn have i: "u < i" "i < num_islands b" "row_of b u < row_of b i" "row_of b i < r"
    "col_of b i < c"
    by (simp_all add: crossing_new_def)
  from slot_right_horizontal [OF board_inv_parts(4) [OF inv] i(2) h]
  obtain j where hj: "h < num_connections b" "j < num_islands b" "horizontal b h i j"
    "nbr b i RIGHT = Isl j" by blast
  from cn hj(4) have cj: "c < col_of b j" by (auto simp: crossing_new_def)
  show "h < num_connections b" by fact
  note v' = new_vertical [OF s up nu]
  note h' = horizontal_step [OF s hj(1,2,3)]
  from step_factsD(12) [OF s up] have u: "u < num_islands b" "col_of b u = c" by simp_all
  with i hj(2) have ne: "u \<noteq> num_islands b" "i \<noteq> num_islands b" "j \<noteq> num_islands b" by auto
  show "geom_cross b' nu h"
    unfolding geom_cross_def
    using v' h' i cj u ne
    by (intro exI [of _ u] exI [of _ "num_islands b"] exI [of _ i] exI [of _ j])
       (simp add: wired_getters(2,3) [OF w] step_new_island(1,2) [OF s])
qed


lemma step_cross_sets:
  assumes "step_facts b r c e left up b'" "k < num_connections b'"
  shows "set (firstcross (connections b' k)) =
             (if k < num_connections b then set (firstcross (connections b k)) else {})
             \<union> {x. \<exists>u i. up = Isl u \<and> Conn k = slot b' (num_islands b) UP
                        \<and> crossing_new b r c u i \<and> x = slot b i RIGHT}
             \<union> {x. \<exists>u i. up = Isl u \<and> x = slot b' (num_islands b) UP
                        \<and> crossing_new b r c u i \<and> slot b i RIGHT = Conn k}"
  using assms unfolding step_facts_def by blast

lemma step_crosses_ok:
  assumes s: "step_facts b r c e left up b'" and inv: "board_inv b"
  shows "crosses_ok b'"
proof -
  note w = step_factsD(1) [OF s]
  note co = board_inv_parts(3) [OF inv] and so = board_inv_parts(4) [OF inv]
    and cr = board_inv_parts(5) [OF inv] and srt = board_inv_parts(1) [OF inv]
  define n where "n = num_islands b"
  define nc where "nc = num_connections b"
  define nu where "nu = (if left = OutI then num_connections b else num_connections b + 1)"
  have nc': "nc \<le> num_connections b'" "up \<noteq> OutI \<Longrightarrow> nu < num_connections b'"
    using wired_conns(1) [OF w] by (auto simp: nu_def nc_def)
  have sup: "slot b' n UP = Conn nu" if "up = Isl u" for u
    using that by (simp add: wired_slots(1) [OF w] n_def nu_def)
  have part1: "\<exists>k' < num_connections b'. x = Conn k' \<and> (geom_cross b' k k' \<or> geom_cross b' k' k)"
    if k: "k < num_connections b'" and x: "x \<in> set (firstcross (connections b' k))" for k x
  proof -
    from x step_cross_sets [OF s k]
    consider (old) "k < nc" "x \<in> set (firstcross (connections b k))"
      | (newv) u i where "up = Isl u" "Conn k = slot b' n UP" "crossing_new b r c u i"
          "x = slot b i RIGHT"
      | (newh) u i where "up = Isl u" "x = slot b' n UP" "crossing_new b r c u i"
          "slot b i RIGHT = Conn k"
      by (auto simp: n_def nc_def split: if_splits)
    then show ?thesis
    proof cases
      case old
      with cr obtain k' where k': "k' < nc" "x = Conn k'" "geom_cross b k k' \<or> geom_cross b k' k"
        unfolding crosses_ok_def nc_def by blast
      from k'(3) geom_cross_step [OF s co] old(1) k'(1)
      have "geom_cross b' k k' \<or> geom_cross b' k' k" unfolding nc_def by blast
      moreover from k'(1) nc'(1) have "k' < num_connections b'" by simp
      ultimately show ?thesis using k'(2) by blast
    next
      case newv
      from newv(2) sup [OF newv(1)] have kn: "k = nu" by simp
      from newv(3) obtain h where h: "slot b i RIGHT = Conn h" by (auto simp: crossing_new_def)
      from crossing_new_geom [OF s inv newv(1,3) h nu_def]
      have "h < nc" "geom_cross b' nu h" by (simp_all add: nc_def)
      moreover from this(1) nc'(1) have "h < num_connections b'" by simp
      ultimately show ?thesis using newv(4) h kn by auto
    next
      case newh
      from crossing_new_geom [OF s inv newh(1,3,4) nu_def]
      have "geom_cross b' nu k" by simp
      with newh(2) sup [OF newh(1)] nc'(2) newh(1) show ?thesis by auto
    qed
  qed
  have part2: "Conn h \<in> set (firstcross (connections b' v))
          \<and> Conn v \<in> set (firstcross (connections b' h))"
    if v: "v < num_connections b'" and h: "h < num_connections b'" and g: "geom_cross b' v h"
    for v h
  proof -
    from g obtain u d l r' where vv: "vertical b' v u d" and hh: "horizontal b' h l r'"
      and geo: "row_of b' u < row_of b' l" "row_of b' l < row_of b' d"
        "col_of b' l < col_of b' u" "col_of b' u < col_of b' r'"
      unfolding geom_cross_def by blast
    have rn: "row_of b' n = r" "col_of b' n = c"
      using step_new_island(1,2) [OF s] by (simp_all add: n_def)
    have rows_le: "row_of b' m \<le> r" if "m \<le> n" for m
    proof (cases "m = n")
      case True
      then show ?thesis by (simp add: rn)
    next
      case False
      with that have "m < num_islands b" by (simp add: n_def)
      from step_factsD(8) [OF s this] False show ?thesis
        by (auto simp: wired_getters(2) [OF w] n_def)
    qed
    text \<open>The horizontal connection is an old one.\<close>
    have h_old: "h < nc \<and> horizontal b h l r' \<and> r' < n" if dn: "d \<le> n"
    proof (cases "h < nc")
      case True
      with horizontal_back [OF s co _ hh] show ?thesis by (simp add: nc_def n_def)
    next
      case False
      from step_new_conns [OF s h] False
      consider (a) l0 where "left = Isl l0" "horizontal b' h l0 n"
        | (b) u0 where "up = Isl u0" "vertical b' h u0 n"
        by (auto simp: nc_def n_def)
      then show ?thesis
      proof cases
        case a
        from conn_endpoints(1) [of b' h l0 n] conn_endpoints(1) [of b' h l r'] a(2) hh
        have "l = l0" by simp
        with step_factsD(10) [OF s a(1)] have "row_of b' l = r"
          by (auto simp: wired_getters(2) [OF w])
        with geo(2) rows_le [OF dn] show ?thesis by simp
      next
        case b
        from conn_endpoints(1,2) [of b' h u0 n] conn_endpoints(1,2) [of b' h l r'] b(2) hh
        have "l = u0" "r' = n" by simp_all
        with hh have "row_of b' u0 = r" by (simp add: horizontal_def rn)
        with step_factsD(12) [OF s b(1)] show ?thesis
          by (auto simp: wired_getters(2) [OF w])
      qed
    qed
    show ?thesis
    proof (cases "v < nc")
      case True
      from vertical_back [OF s co _ vv] True have vb: "vertical b v u d" "d < n"
        by (simp_all add: nc_def n_def)
      with h_old have hb: "h < nc" "horizontal b h l r'" "r' < n" by simp_all
      from conn_endpoints(3) [of b v u d] conn_endpoints(3) [of b h l r'] vb hb
      have "u \<noteq> num_islands b" "d \<noteq> num_islands b" "l \<noteq> num_islands b" "r' \<noteq> num_islands b"
        by (auto simp: n_def)
      with geo have "geom_cross b v h"
        unfolding geom_cross_def using vb(1) hb(2)
        by (intro exI [of _ u] exI [of _ d] exI [of _ l] exI [of _ r'])
           (simp add: wired_getters(2,3) [OF w])
      with cr True hb(1) have "Conn h \<in> set (firstcross (connections b v))
          \<and> Conn v \<in> set (firstcross (connections b h))"
        unfolding crosses_ok_def nc_def by blast
      then show ?thesis
        using step_cross_sets [OF s v] step_cross_sets [OF s h] True hb(1)
        by (simp add: nc_def)
    next
      case False
      from step_new_conns [OF s v] False
      consider (a) l0 where "left = Isl l0" "horizontal b' v l0 n"
        | (b) u0 where "up = Isl u0" "v = nu" "vertical b' v u0 n"
        by (auto simp: nc_def n_def nu_def)
      then show ?thesis
      proof cases
        case a
        from conn_endpoints(1,2) [of b' v l0 n] conn_endpoints(1,2) [of b' v u d] a(2) vv
        have "u = l0" "d = n" by simp_all
        with vv have "col_of b' l0 = c" by (simp add: vertical_def rn)
        with step_factsD(10) [OF s a(1)] show ?thesis
          by (auto simp: wired_getters(3) [OF w])
      next
        case b
        from conn_endpoints(1,2) [of b' v u0 n] conn_endpoints(1,2) [of b' v u d] b(3) vv
        have ud: "u = u0" "d = n" by simp_all
        with h_old have hb: "h < nc" "horizontal b h l r'" "r' < n" by simp_all
        from step_factsD(12) [OF s b(1)] have u0: "u0 < n" "col_of b u0 = c" by (simp_all add: n_def)
        from conn_endpoints(3) [of b h l r'] hb have l: "l < n" by simp
        from u0 l hb(3) have ne: "u0 \<noteq> num_islands b" "l \<noteq> num_islands b" "r' \<noteq> num_islands b"
          by (auto simp: n_def)
        from geo ne have geo': "row_of b u0 < row_of b l" "row_of b l < r" "col_of b l < c"
          "c < col_of b r'"
          using u0(2) by (simp_all add: ud rn wired_getters(2,3) [OF w])
        from sorted_index [OF srt geo'(1)] u0(1) l have "u0 < l" by (simp add: n_def)
        with l geo' hb(2) have cn: "crossing_new b r c u0 l"
          unfolding crossing_new_def n_def by (auto simp: horizontal_def)
        from hb(2) have sl: "slot b l RIGHT = Conn h" by (simp add: horizontal_def)
        have "Conn h \<in> set (firstcross (connections b' v))"
          unfolding step_cross_sets [OF s v]
          using b(1,2) sup [OF b(1)] cn sl by (auto simp: n_def)
        moreover have "Conn v \<in> set (firstcross (connections b' h))"
          unfolding step_cross_sets [OF s h]
          using b(1,2) sup [OF b(1)] cn sl by (auto simp: n_def)
        ultimately show ?thesis by simp
      qed
    qed
  qed
  show ?thesis
    unfolding crosses_ok_def using part1 part2 by blast
qed

lemma add_island_inv:
  assumes "board_inv b" "add_island b r c e = Some b'"
  shows "board_inv b'"
proof -
  from add_island_step [OF assms] obtain left up where s: "step_facts b r c e left up b'"
    by blast
  note p = board_inv_parts [OF assms(1)]
  show ?thesis
    unfolding board_inv_def
    using step_sorted [OF s p(1)] step_in_grid [OF s p(2)] step_conns_ok [OF s p(3)]
      step_slots_ok [OF s p(4)] step_crosses_ok [OF s assms(1)] step_outs_ok [OF s p(6)]
      step_fresh [OF s p(7)]
    by simp
qed



lemma init_board_inv: "board_inv (init_board board isls mi conns mc mx vm mv)"
  by (simp add: board_inv_def init_board_def sorted_islands_def in_grid_def conns_ok_def
      slots_ok_def crosses_ok_def outs_ok_def fresh_state_def init_out_island_def
      init_out_connection_def)

lemma add_islands_inv:
  assumes "board_inv b" "add_islands b xs = Some b'"
  shows "board_inv b'"
  using assms
proof (induction xs arbitrary: b)
  case Nil
  then show ?case by simp
next
  case (Cons x xs)
  obtain r c e where x: "x = (r, c, e)" by (cases x)
  from Cons.prems(2) obtain b1 where b1: "add_island b r c e = Some b1"
    and rest: "add_islands b1 xs = Some b'"
    by (auto simp: x split: option.splits)
  from Cons.IH [OF add_island_inv [OF Cons.prems(1) b1] rest] show ?case .
qed

lemma built_inv:
  assumes "add_islands (init_board board isls mi conns mc mx vm mv) xs = Some b"
  shows "board_inv b"
  using add_islands_inv [OF init_board_inv assms] .

lemma is_vertical:
  assumes c: "conns_ok b" and k: "k < num_connections b"
    and e: "ppendbridges1 (connections b k) = Isl u" "ppendbridges2 (connections b k) = Isl d"
    and col: "col_of b u = col_of b d"
  shows "vertical b k u d"
proof -
  from c k obtain i j where hv: "horizontal b k i j \<or> vertical b k i j"
    unfolding conns_ok_def by blast
  from conn_endpoints(1,2) [OF hv] e have "i = u" "j = d" by simp_all
  with hv col show ?thesis by (auto simp: horizontal_def)
qed

lemma is_horizontal:
  assumes c: "conns_ok b" and k: "k < num_connections b"
    and e: "ppendbridges1 (connections b k) = Isl l" "ppendbridges2 (connections b k) = Isl r"
    and row: "row_of b l = row_of b r"
  shows "horizontal b k l r"
proof -
  from c k obtain i j where hv: "horizontal b k i j \<or> vertical b k i j"
    unfolding conns_ok_def by blast
  from conn_endpoints(1,2) [OF hv] e have "i = l" "j = r" by simp_all
  with hv row show ?thesis by (auto simp: vertical_def)
qed

lemma geom_cross_iff:
  assumes "vertical b v u d" "horizontal b h l r"
  shows "geom_cross b v h \<longleftrightarrow>
     row_of b u < row_of b l \<and> row_of b l < row_of b d
     \<and> col_of b l < col_of b u \<and> col_of b u < col_of b r"
proof
  assume "geom_cross b v h"
  then obtain u' d' l' r' where a: "vertical b v u' d'" "horizontal b h l' r'"
    and g: "row_of b u' < row_of b l'" "row_of b l' < row_of b d'"
      "col_of b l' < col_of b u'" "col_of b u' < col_of b r'"
    unfolding geom_cross_def by blast
  from conn_endpoints(1,2) [of b v u d] conn_endpoints(1,2) [of b v u' d'] assms(1) a(1)
  have "u' = u" "d' = d" by simp_all
  moreover from conn_endpoints(1,2) [of b h l r] conn_endpoints(1,2) [of b h l' r'] assms(2) a(2)
  have "l' = l" "r' = r" by simp_all
  ultimately show "row_of b u < row_of b l \<and> row_of b l < row_of b d
     \<and> col_of b l < col_of b u \<and> col_of b u < col_of b r"
    using g by simp
next
  assume "row_of b u < row_of b l \<and> row_of b l < row_of b d
     \<and> col_of b l < col_of b u \<and> col_of b u < col_of b r"
  with assms show "geom_cross b v h" unfolding geom_cross_def by blast
qed

text \<open>
  C7. On a board built by \<open>add_island\<close> calls, take a connection \<open>v\<close> whose two
  endpoints \<open>u\<close>, \<open>d\<close> are in one column and a connection \<open>h\<close> whose two endpoints
  \<open>l\<close>, \<open>r\<close> are in one row. The crossing list of \<open>h\<close> has an entry for the bridge
  count of \<open>v\<close> exactly when the row of \<open>h\<close> is strictly between the rows of \<open>u\<close> and
  \<open>d\<close> and the column of \<open>v\<close> is strictly between the columns of \<open>l\<close> and \<open>r\<close>; and
  the crossing list of \<open>v\<close> has an entry for \<open>h\<close> under exactly the same condition.
\<close>

theorem crossing_recorded_iff_geometric:
  assumes built: "add_islands (init_board board isls mi conns mc mx vm mv) xs = Some b"
    and v: "v < num_connections b" and h: "h < num_connections b"
    and ev: "ppendbridges1 (connections b v) = Isl u" "ppendbridges2 (connections b v) = Isl d"
    and eh: "ppendbridges1 (connections b h) = Isl l" "ppendbridges2 (connections b h) = Isl r"
    and vert: "col_of b u = col_of b d" and horz: "row_of b l = row_of b r"
  shows "(Conn v \<in> set (firstcross (connections b h)) \<longleftrightarrow>
            row_of b u < row_of b l \<and> row_of b l < row_of b d
            \<and> col_of b l < col_of b u \<and> col_of b u < col_of b r)
       \<and> (Conn h \<in> set (firstcross (connections b v)) \<longleftrightarrow>
            row_of b u < row_of b l \<and> row_of b l < row_of b d
            \<and> col_of b l < col_of b u \<and> col_of b u < col_of b r)"
proof -
  note inv = built_inv [OF built]
  note co = board_inv_parts(3) [OF inv] and cr = board_inv_parts(5) [OF inv]
  note vv = is_vertical [OF co v ev vert] and hh = is_horizontal [OF co h eh horz]
  note gi = geom_cross_iff [OF vv hh]
  have no: "\<not> geom_cross b h v"
  proof
    assume "geom_cross b h v"
    then obtain u' d' where "vertical b h u' d'" unfolding geom_cross_def by blast
    with conn_endpoints(1,2) [of b h u' d'] eh have "vertical b h l r" by simp
    with horz show False by (simp add: vertical_def)
  qed
  have fwd: "Conn h \<in> set (firstcross (connections b v))
          \<and> Conn v \<in> set (firstcross (connections b h))" if "geom_cross b v h"
    using cr v h that unfolding crosses_ok_def by blast
  have b1: "geom_cross b v h" if "Conn v \<in> set (firstcross (connections b h))"
  proof -
    from cr h that obtain k' where "Conn v = Conn k'" "geom_cross b h k' \<or> geom_cross b k' h"
      unfolding crosses_ok_def by blast
    with no show ?thesis by auto
  qed
  have b2: "geom_cross b v h" if "Conn h \<in> set (firstcross (connections b v))"
  proof -
    from cr v that obtain k' where "Conn h = Conn k'" "geom_cross b v k' \<or> geom_cross b k' v"
      unfolding crosses_ok_def by blast
    with no show ?thesis by auto
  qed
  from fwd b1 b2 show ?thesis unfolding gi [symmetric] by blast
qed




section \<open>The constraint engine on loaded boards\<close>

lemma load_static [simp]:
  "num_islands (load b a) = num_islands b" "num_connections (load b a) = num_connections b"
  "rows (load b a) = rows b" "cols (load b a) = cols b"
  "out_island_st (load b a) = out_island_st b" "out_connection_st (load b a) = out_connection_st b"
  "visitedmatrix (load b a) = visitedmatrix b" "max_visited_size (load b a) = max_visited_size b"
  "visitedlimit (load b a) = visitedlimit b"
  "slot (load b a) i d = slot b i d" "nbr (load b a) i d = nbr b i d"
  "row_of (load b a) i = row_of b i" "col_of (load b a) i = col_of b i"
  "expectbridges (islands (load b a) i) = expectbridges (islands b i)"
  "isl_connections (islands (load b a) i) = isl_connections (islands b i)"
  "isl_islands (islands (load b a) i) = isl_islands (islands b i)"
  "ppendbridges1 (connections (load b a) k) = ppendbridges1 (connections b k)"
  "ppendbridges2 (connections (load b a) k) = ppendbridges2 (connections b k)"
  "firstcross (connections (load b a) k) = firstcross (connections b k)"
  "expected (load b a) i = expected b i"
  by (simp_all add: load_def slot_def nbr_def row_of_def col_of_def expected_def)

lemma load_bridges:
  "k < num_connections b \<Longrightarrow> bridges (connections (load b a) k) = of_nat (a k)"
  by (simp add: load_def)

lemma load_pend:
  "i < num_islands b \<Longrightarrow>
     pendbridges (islands (load b a) i) = expectbridges (islands b i) - of_nat (used b a i)"
  by (simp add: load_def)

lemma used_load [simp]: "used (load b a) a' i = used b a' i"
  by (simp add: used_def)


lemma slot_cases:
  assumes "slots_ok b" "i < num_islands b" "slot b i d = Conn k"
  shows "k < num_connections b \<and>
     (case d of
        RIGHT \<Rightarrow> (\<exists>j < num_islands b. horizontal b k i j)
      | LEFT \<Rightarrow> (\<exists>j. horizontal b k j i)
      | DOWN \<Rightarrow> (\<exists>j < num_islands b. vertical b k i j)
      | UP \<Rightarrow> (\<exists>j. vertical b k j i))"
proof -
  from assms(1,2) have s:
      "slot b i RIGHT = OutC \<and> nbr b i RIGHT = OutI
           \<or> (\<exists>k j. k < num_connections b \<and> j < num_islands b \<and> horizontal b k i j)"
      "slot b i LEFT = OutC \<and> nbr b i LEFT = OutI
           \<or> (\<exists>k j. k < num_connections b \<and> horizontal b k j i)"
      "slot b i DOWN = OutC \<and> nbr b i DOWN = OutI
           \<or> (\<exists>k j. k < num_connections b \<and> j < num_islands b \<and> vertical b k i j)"
      "slot b i UP = OutC \<and> nbr b i UP = OutI
           \<or> (\<exists>k j. k < num_connections b \<and> vertical b k j i)"
    unfolding slots_ok_def by blast+
  show ?thesis
  proof (cases d)
    case UP
    with s(4) assms(3) show ?thesis by (auto simp: vertical_def)
  next
    case LEFT
    with s(2) assms(3) show ?thesis by (auto simp: horizontal_def)
  next
    case RIGHT
    with s(1) assms(3) show ?thesis by (auto simp: horizontal_def)
  next
    case DOWN
    with s(3) assms(3) show ?thesis by (auto simp: vertical_def)
  qed
qed

lemma horizontal_not_vertical:
  assumes "horizontal b k i j" "vertical b k i' j'"
  shows False
proof -
  from conn_endpoints(1,2) [of b k i j] conn_endpoints(1,2) [of b k i' j'] assms
  have "i' = i" "j' = j" by simp_all
  with assms show False by (simp add: horizontal_def vertical_def)
qed

text \<open>The two slots that hold a connection.\<close>

definition wired_at :: "hboard \<Rightarrow> nat \<Rightarrow> nat \<Rightarrow> nat \<Rightarrow> bool" where
  "wired_at b k i j \<longleftrightarrow>
     i < j \<and> j < num_islands b
     \<and> ppendbridges1 (connections b k) = Isl i \<and> ppendbridges2 (connections b k) = Isl j
     \<and> ((\<forall>m d. m < num_islands b \<longrightarrow>
            (slot b m d = Conn k \<longleftrightarrow> m = i \<and> d = RIGHT \<or> m = j \<and> d = LEFT))
        \<or> (\<forall>m d. m < num_islands b \<longrightarrow>
            (slot b m d = Conn k \<longleftrightarrow> m = i \<and> d = DOWN \<or> m = j \<and> d = UP)))"

lemma conn_wired_at:
  assumes inv: "board_inv b" and k: "k < num_connections b"
  shows "\<exists>i j. wired_at b k i j"
proof -
  note so = board_inv_parts(4) [OF inv]
  from board_inv_parts(3) [OF inv] k obtain i j where j: "j < num_islands b"
    and hv: "horizontal b k i j \<or> vertical b k i j"
    unfolding conns_ok_def by blast
  note e = conn_endpoints [OF hv]
  from e(3) j have i: "i < num_islands b" by simp
  from hv show ?thesis
  proof
    assume h: "horizontal b k i j"
    have "slot b m d = Conn k \<longleftrightarrow> m = i \<and> d = RIGHT \<or> m = j \<and> d = LEFT"
      if m: "m < num_islands b" for m d
    proof
      assume a: "slot b m d = Conn k"
      from slot_cases [OF so m a] show "m = i \<and> d = RIGHT \<or> m = j \<and> d = LEFT"
        using horizontal_not_vertical [OF h] e(1,2) conn_endpoints(1,2) [of b k]
        by (cases d) fastforce+
    next
      assume "m = i \<and> d = RIGHT \<or> m = j \<and> d = LEFT"
      with h show "slot b m d = Conn k" by (auto simp: horizontal_def)
    qed
    with e j show ?thesis unfolding wired_at_def by blast
  next
    assume v: "vertical b k i j"
    have "slot b m d = Conn k \<longleftrightarrow> m = i \<and> d = DOWN \<or> m = j \<and> d = UP"
      if m: "m < num_islands b" for m d
    proof
      assume a: "slot b m d = Conn k"
      from slot_cases [OF so m a] show "m = i \<and> d = DOWN \<or> m = j \<and> d = UP"
        using horizontal_not_vertical [OF _ v] e(1,2) conn_endpoints(1,2) [of b k]
        by (cases d) fastforce+
    next
      assume "m = i \<and> d = DOWN \<or> m = j \<and> d = UP"
      with v show "slot b m d = Conn k" by (auto simp: vertical_def)
    qed
    with e j show ?thesis unfolding wired_at_def by blast
  qed
qed

lemma cnt_upd: "cnt (a(k := v)) c = (if c = Conn k then v else cnt a c)"
  by (cases c) auto

lemma used_upd:
  assumes w: "wired_at b k i j" and m: "m < num_islands b"
  shows "used b (a(k := v)) m + (if m = i \<or> m = j then a k else 0)
       = used b a m + (if m = i \<or> m = j then v else 0)"
proof -
  from w have ij: "i \<noteq> j" by (simp add: wired_at_def)
  from w consider
      (h) "\<forall>m d. m < num_islands b \<longrightarrow>
            (slot b m d = Conn k \<longleftrightarrow> m = i \<and> d = RIGHT \<or> m = j \<and> d = LEFT)"
    | (v) "\<forall>m d. m < num_islands b \<longrightarrow>
            (slot b m d = Conn k \<longleftrightarrow> m = i \<and> d = DOWN \<or> m = j \<and> d = UP)"
    unfolding wired_at_def by blast
  then show ?thesis
  proof cases
    case h
    with m have s: "slot b m d = Conn k \<longleftrightarrow> m = i \<and> d = RIGHT \<or> m = j \<and> d = LEFT" for d
      by blast
    have c: "cnt a (slot b m d) = a k" if "slot b m d = Conn k" for d
      using that by simp
    show ?thesis
      using ij c [of RIGHT] c [of LEFT] by (auto simp: used_def cnt_upd s)
  next
    case v
    with m have s: "slot b m d = Conn k \<longleftrightarrow> m = i \<and> d = DOWN \<or> m = j \<and> d = UP" for d
      by blast
    have c: "cnt a (slot b m d) = a k" if "slot b m d = Conn k" for d
      using that by simp
    show ?thesis
      using ij c [of DOWN] c [of UP] by (auto simp: used_def cnt_upd s)
  qed
qed

lemma used_ge:
  assumes w: "wired_at b k i j" and m: "m = i \<or> m = j"
  shows "a k \<le> used b a m"
proof -
  from w m have m': "m < num_islands b" by (auto simp: wired_at_def)
  from w m' m obtain d where "slot b m d = Conn k"
    unfolding wired_at_def by blast
  then have "cnt a (slot b m d) = a k" by simp
  then show ?thesis by (cases d) (auto simp: used_def)
qed



lemma sint_of_nat_small:
  assumes "n \<le> 8"
  shows "sint (of_nat n :: cchar) = int n"
proof -
  have "sint (word_of_int (int n) :: cchar) = int n"
    using assms by (intro sint_word_of_int_small) simp_all
  moreover have "(word_of_int (int n) :: cchar) = of_nat n"
    by (simp add: word_of_int_nat)
  ultimately show ?thesis by (simp only:)
qed

lemma of_nat_eq_0_small:
  assumes "n \<le> 8"
  shows "(of_nat n :: cchar) = 0 \<longleftrightarrow> n = 0"
proof
  assume "(of_nat n :: cchar) = 0"
  then have "sint (of_nat n :: cchar) = 0" by simp
  with sint_of_nat_small [OF assms] show "n = 0" by simp
qed simp

lemma expect_eq_of_nat:
  assumes "1 \<le> sint (e :: cchar)" "sint e \<le> 8"
  shows "e = of_nat (nat (sint e))"
proof -
  have "word_of_int (sint e) = e" by simp
  moreover have "int (nat (sint e)) = sint e" using assms by simp
  ultimately show ?thesis by (metis of_int_of_nat_eq)
qed

lemma pend_zero_iff:
  assumes g: "in_grid b" and i: "i < num_islands b" and u: "u \<le> expected b i"
  shows "expectbridges (islands b i) - of_nat u = 0 \<longleftrightarrow> u = expected b i"
proof -
  from g i have r: "1 \<le> sint (expectbridges (islands b i))" "sint (expectbridges (islands b i)) \<le> 8"
    unfolding in_grid_def by blast+
  then have e8: "expected b i \<le> 8" by (simp add: expected_def)
  have e: "expectbridges (islands b i) = of_nat (expected b i)"
    unfolding expected_def by (rule expect_eq_of_nat [OF r])
  have "expectbridges (islands b i) - of_nat u = (of_nat (expected b i - u) :: cchar)"
    using u by (simp add: e)
  moreover have "expected b i - u \<le> 8" using e8 by simp
  ultimately have "expectbridges (islands b i) - of_nat u = 0 \<longleftrightarrow> expected b i - u = 0"
    by (simp only: of_nat_eq_0_small)
  with u show ?thesis by auto
qed

lemma expected_bounds:
  assumes "in_grid b" "i < num_islands b"
  shows "1 \<le> expected b i" "expected b i \<le> 8"
  using assms unfolding in_grid_def expected_def by (auto simp: nat_le_iff)

lemma partial_okD:
  assumes "partial_ok b a"
  shows "k < num_connections b \<Longrightarrow> a k \<le> 2"
    and "\<not> k < num_connections b \<Longrightarrow> a k = 0"
    and "i < num_islands b \<Longrightarrow> used b a i \<le> expected b i"
    and "k < num_connections b \<Longrightarrow> x \<in> set (firstcross (connections b k)) \<Longrightarrow> 0 < a k
           \<Longrightarrow> cnt a x = 0"
  using assms unfolding partial_ok_def by blast+

lemma cross_refs:
  assumes "crosses_ok b" "k < num_connections b" "x \<in> set (firstcross (connections b k))"
  shows "\<exists>k' < num_connections b. x = Conn k' \<and> Conn k \<in> set (firstcross (connections b k'))"
proof -
  from assms obtain k' where k': "k' < num_connections b" "x = Conn k'"
    "geom_cross b k k' \<or> geom_cross b k' k"
    unfolding crosses_ok_def by blast
  with assms(1,2) have "Conn k \<in> set (firstcross (connections b k'))"
    unfolding crosses_ok_def by blast
  with k' show ?thesis by blast
qed

lemma load_eqI:
  assumes "\<And>k. connections b1 k = connections (load b a) k"
    and "\<And>i. islands b1 i = islands (load b a) i"
    and "b1\<lparr>connections := connections b, islands := islands b\<rparr> = b"
  shows "b1 = load b a"
proof -
  from assms(1,2) have "connections b1 = connections (load b a)" "islands b1 = islands (load b a)"
    by auto
  then have "b1 = (b1\<lparr>connections := connections b, islands := islands b\<rparr>)
      \<lparr>connections := connections (load b a), islands := islands (load b a)\<rparr>"
    by simp
  also have "\<dots> = b\<lparr>connections := connections (load b a), islands := islands (load b a)\<rparr>"
    by (simp only: assms(3))
  also have "\<dots> = load b a" by (simp add: load_def)
  finally show ?thesis .
qed

lemma cross_busy_load:
  assumes cr: "crosses_ok b" and ok: "partial_ok b a" and k: "k < num_connections b"
  shows "cross_busy (load b a) (firstcross (connections b k))
     \<longleftrightarrow> \<not> (\<forall>x \<in> set (firstcross (connections b k)). cnt a x = 0)"
proof -
  have "bridges (get_connection (load b a) x) \<noteq> 0 \<longleftrightarrow> cnt a x \<noteq> 0"
    if "x \<in> set (firstcross (connections b k))" for x
  proof -
    from cross_refs [OF cr k that] obtain k' where k': "k' < num_connections b" "x = Conn k'"
      by blast
    with partial_okD(1) [OF ok k'(1)] show ?thesis
      by (simp add: get_connection_def load_bridges of_nat_eq_0_small)
  qed
  then show ?thesis unfolding cross_busy_iff by blast
qed

lemma add_bridge_load_Conn:
  assumes inv: "board_inv b" and ok: "partial_ok b a" and k: "k < num_connections b"
  shows "add_bridge (load b a) (Conn k) =
     (if can_add b a (Conn k) then (True, load b (bump a (Conn k))) else (False, load b a))"
proof -
  from conn_wired_at [OF inv k] obtain i j where w: "wired_at b k i j" by blast
  then have ij: "i < j" "j < num_islands b" "i < num_islands b"
    and e: "ppendbridges1 (connections b k) = Isl i" "ppendbridges2 (connections b k) = Isl j"
    by (auto simp: wired_at_def)
  note g = board_inv_parts(2) [OF inv] and cr = board_inv_parts(5) [OF inv]
  note ak = partial_okD(1) [OF ok k]
  have br: "2 \<le> sint (bridges (get_connection (load b a) (Conn k))) \<longleftrightarrow> \<not> a k < 2"
    using ak by (simp add: get_connection_def load_bridges [OF k] sint_of_nat_small)
  have pi: "pendbridges (get_island (load b a) (Isl m)) \<noteq> 0 \<longleftrightarrow> used b a m < expected b m"
    if "m < num_islands b" for m
    using pend_zero_iff [OF g that partial_okD(3) [OF ok that]] partial_okD(3) [OF ok that]
    by (auto simp: get_island_def load_pend [OF that])
  have ca: "can_add b a (Conn k) \<longleftrightarrow> a k < 2 \<and> used b a i < expected b i \<and> used b a j < expected b j
      \<and> (\<forall>x \<in> set (firstcross (connections b k)). cnt a x = 0)"
    by (auto simp: can_add_def e)
  have gc: "get_connection (load b a) (Conn k) = connections (load b a) k"
    by (simp add: get_connection_def)
  have "fst (add_bridge (load b a) (Conn k)) \<longleftrightarrow>
      \<not> 2 \<le> sint (bridges (get_connection (load b a) (Conn k)))
      \<and> pendbridges (get_island (load b a) (Isl i)) \<noteq> 0
      \<and> pendbridges (get_island (load b a) (Isl j)) \<noteq> 0
      \<and> \<not> cross_busy (load b a) (firstcross (connections b k))"
    by (simp add: add_bridge_def Let_def gc e)
  then have fst_iff: "fst (add_bridge (load b a) (Conn k)) \<longleftrightarrow> can_add b a (Conn k)"
    unfolding br pi [OF ij(2)] pi [OF ij(3)] cross_busy_load [OF cr ok k] ca by blast
  show ?thesis
  proof (cases "can_add b a (Conn k)")
    case False
    with fst_iff have "\<not> fst (add_bridge (load b a) (Conn k))" by simp
    then have "add_bridge (load b a) (Conn k) = (False, load b a)"
      using add_bridge_False [of "load b a" "Conn k"]
      by (cases "add_bridge (load b a) (Conn k)") auto
    with False show ?thesis by simp
  next
    case True
    with fst_iff have "add_bridge (load b a) (Conn k)
        = (True, snd (add_bridge (load b a) (Conn k)))"
      by (cases "add_bridge (load b a) (Conn k)") auto
    from add_bridge_True_eq [OF this]
    have ok': "snd (add_bridge (load b a) (Conn k)) =
       upd_island (upd_island
                (upd_connection (load b a) (Conn k) (\<lambda>x. x\<lparr>bridges := bridges x + 1\<rparr>))
                (Isl i) (\<lambda>x. x\<lparr>pendbridges := pendbridges x - 1\<rparr>))
                (Isl j) (\<lambda>x. x\<lparr>pendbridges := pendbridges x - 1\<rparr>)"
      by (simp add: gc e)
    define a' where "a' = a(k := a k + 1)"
    have u: "used b a' m = used b a m + (if m = i \<or> m = j then 1 else 0)"
      if "m < num_islands b" for m
      using used_upd [OF w that, of a "a k + 1"] by (auto simp: a'_def split: if_splits)
    define B where "B = upd_island (upd_island
                (upd_connection (load b a) (Conn k) (\<lambda>x. x\<lparr>bridges := bridges x + 1\<rparr>))
                (Isl i) (\<lambda>x. x\<lparr>pendbridges := pendbridges x - 1\<rparr>))
                (Isl j) (\<lambda>x. x\<lparr>pendbridges := pendbridges x - 1\<rparr>)"
    have Bc: "connections B = (connections (load b a))
        (k := (connections (load b a) k)\<lparr>bridges := bridges (connections (load b a) k) + 1\<rparr>)"
      by (simp add: B_def upd_island_def upd_connection_def)
    have Bi: "islands B m =
        (if m = i \<or> m = j
         then (islands (load b a) m)\<lparr>pendbridges := pendbridges (islands (load b a) m) - 1\<rparr>
         else islands (load b a) m)" for m
      using ij(1) by (simp add: B_def upd_island_def upd_connection_def)
    have Br: "B\<lparr>connections := connections b, islands := islands b\<rparr> = b"
      unfolding B_def upd_island_def upd_connection_def load_def by simp
    have "B = load b a'"
    proof (rule load_eqI [OF _ _ Br])
      fix k'
      show "connections B k' = connections (load b a') k'"
        using k by (simp add: Bc load_def a'_def)
    next
      fix m
      show "islands B m = islands (load b a') m"
      proof (cases "m < num_islands b")
        case True
        then show ?thesis
          using u [OF True] by (simp add: Bi load_def)
      next
        case False
        with ij have "m \<noteq> i" "m \<noteq> j" by auto
        with False show ?thesis by (simp add: Bi load_def)
      qed
    qed
    with ok' True \<open>add_bridge (load b a) (Conn k) = (True, snd (add_bridge (load b a) (Conn k)))\<close>
    show ?thesis by (simp add: a'_def B_def)
  qed
qed



lemma del_bridge_load_Conn:
  assumes inv: "board_inv b" and ok: "partial_ok b a" and k: "k < num_connections b"
  shows "del_bridge (load b a) (Conn k) =
     (if 0 < a k then (True, load b (drop1 a (Conn k))) else (False, load b a))"
proof -
  from conn_wired_at [OF inv k] obtain i j where w: "wired_at b k i j" by blast
  then have ij: "i < j" "j < num_islands b" "i < num_islands b"
    and e: "ppendbridges1 (connections b k) = Isl i" "ppendbridges2 (connections b k) = Isl j"
    by (auto simp: wired_at_def)
  note ak = partial_okD(1) [OF ok k]
  have gc: "get_connection (load b a) (Conn k) = connections (load b a) k"
    by (simp add: get_connection_def)
  have nz: "bridges (get_connection (load b a) (Conn k)) \<noteq> 0 \<longleftrightarrow> 0 < a k"
    using ak by (simp add: gc load_bridges [OF k] of_nat_eq_0_small)
  show ?thesis
  proof (cases "0 < a k")
    case False
    with nz show ?thesis by (simp add: del_bridge_def)
  next
    case True
    with nz have "del_bridge (load b a) (Conn k) = (True, snd (del_bridge (load b a) (Conn k)))"
      by (simp add: del_bridge_def Let_def)
    note t = this
    from del_bridge_True_eq [OF this]
    have ok': "snd (del_bridge (load b a) (Conn k)) =
       upd_island (upd_island
                (upd_connection (load b a) (Conn k) (\<lambda>x. x\<lparr>bridges := bridges x - 1\<rparr>))
                (Isl i) (\<lambda>x. x\<lparr>pendbridges := pendbridges x + 1\<rparr>))
                (Isl j) (\<lambda>x. x\<lparr>pendbridges := pendbridges x + 1\<rparr>)"
      by (simp add: gc e)
    define a' where "a' = a(k := a k - 1)"
    have u: "used b a m = used b a' m + (if m = i \<or> m = j then 1 else 0)"
      if "m < num_islands b" for m
      using used_upd [OF w that, of a "a k - 1"] True by (auto simp: a'_def split: if_splits)
    define B where "B = upd_island (upd_island
                (upd_connection (load b a) (Conn k) (\<lambda>x. x\<lparr>bridges := bridges x - 1\<rparr>))
                (Isl i) (\<lambda>x. x\<lparr>pendbridges := pendbridges x + 1\<rparr>))
                (Isl j) (\<lambda>x. x\<lparr>pendbridges := pendbridges x + 1\<rparr>)"
    have Bc: "connections B = (connections (load b a))
        (k := (connections (load b a) k)\<lparr>bridges := bridges (connections (load b a) k) - 1\<rparr>)"
      by (simp add: B_def upd_island_def upd_connection_def)
    have Bi: "islands B m =
        (if m = i \<or> m = j
         then (islands (load b a) m)\<lparr>pendbridges := pendbridges (islands (load b a) m) + 1\<rparr>
         else islands (load b a) m)" for m
      using ij(1) by (simp add: B_def upd_island_def upd_connection_def)
    have Br: "B\<lparr>connections := connections b, islands := islands b\<rparr> = b"
      unfolding B_def upd_island_def upd_connection_def load_def by simp
    have w1: "(of_nat (a k) :: cchar) - 1 = of_nat (a k - 1)"
      using True by (simp add: of_nat_diff)
    have "B = load b a'"
    proof (rule load_eqI [OF _ _ Br])
      fix k'
      show "connections B k' = connections (load b a') k'"
        using k w1 by (simp add: Bc load_def a'_def)
    next
      fix m
      show "islands B m = islands (load b a') m"
      proof (cases "m < num_islands b")
        case True
        then show ?thesis
          using u [OF True] by (simp add: Bi load_def)
      next
        case False
        with ij have "m \<noteq> i" "m \<noteq> j" by auto
        with False show ?thesis by (simp add: Bi load_def)
      qed
    qed
    with ok' True t show ?thesis by (simp add: a'_def B_def)
  qed
qed

lemma add_bridge_load_OutC:
  assumes "outs_ok b"
  shows "add_bridge (load b a) OutC = (False, load b a)"
  using assms by (simp add: add_bridge_def get_connection_def get_island_def outs_ok_def)

lemma del_bridge_load_OutC:
  assumes "outs_ok b"
  shows "del_bridge (load b a) OutC = (False, load b a)"
  using assms by (simp add: del_bridge_def get_connection_def outs_ok_def)

lemma add_bridge_load:
  assumes "board_inv b" "partial_ok b a" "conn_of b c"
  shows "add_bridge (load b a) c =
     (if can_add b a c then (True, load b (bump a c)) else (False, load b a))"
proof (cases c)
  case OutC
  then show ?thesis
    using add_bridge_load_OutC [OF board_inv_parts(6) [OF assms(1)]] by (simp add: can_add_def)
next
  case (Conn k)
  with assms(3) have "k < num_connections b" by (simp add: conn_of_def)
  from add_bridge_load_Conn [OF assms(1,2) this] Conn show ?thesis by simp
qed

lemma del_bridge_load:
  assumes "board_inv b" "partial_ok b a" "conn_of b c"
  shows "del_bridge (load b a) c =
     (if 0 < cnt a c then (True, load b (drop1 a c)) else (False, load b a))"
proof (cases c)
  case OutC
  then show ?thesis
    using del_bridge_load_OutC [OF board_inv_parts(6) [OF assms(1)]] by simp
next
  case (Conn k)
  with assms(3) have "k < num_connections b" by (simp add: conn_of_def)
  from del_bridge_load_Conn [OF assms(1,2) this] Conn show ?thesis by simp
qed

lemma cross_not_self:
  assumes "board_inv b" "k < num_connections b"
  shows "Conn k \<notin> set (firstcross (connections b k))"
proof
  assume "Conn k \<in> set (firstcross (connections b k))"
  with board_inv_parts(5) [OF assms(1)] assms(2) have "geom_cross b k k"
    unfolding crosses_ok_def by blast
  then show False unfolding geom_cross_def using horizontal_not_vertical by blast
qed

lemma partial_ok_bump:
  assumes inv: "board_inv b" and ok: "partial_ok b a" and c: "conn_of b c"
    and ca: "can_add b a c"
  shows "partial_ok b (bump a c)"
proof (cases c)
  case OutC
  with ok show ?thesis by simp
next
  case (Conn k)
  with c have k: "k < num_connections b" by (simp add: conn_of_def)
  from conn_wired_at [OF inv k] obtain i j where w: "wired_at b k i j" by blast
  then have e: "ppendbridges1 (connections b k) = Isl i" "ppendbridges2 (connections b k) = Isl j"
    by (auto simp: wired_at_def)
  from ca Conn have ca': "a k < 2" "used b a i < expected b i" "used b a j < expected b j"
    "\<And>x. x \<in> set (firstcross (connections b k)) \<Longrightarrow> cnt a x = 0"
    by (auto simp: can_add_def e)
  note cr = board_inv_parts(5) [OF inv]
  define a' where "a' = a(k := a k + 1)"
  have 1: "a' k' \<le> 2" if "k' < num_connections b" for k'
    using partial_okD(1) [OF ok that] ca'(1) by (simp add: a'_def)
  have 2: "a' k' = 0" if "\<not> k' < num_connections b" for k'
    using partial_okD(2) [OF ok that] that k by (auto simp: a'_def)
  have 3: "used b a' m \<le> expected b m" if "m < num_islands b" for m
    using used_upd [OF w that, of a "a k + 1"] partial_okD(3) [OF ok that] ca'(2,3)
    by (auto simp: a'_def split: if_splits)
  have 4: "cnt a' x = 0"
    if k1: "k1 < num_connections b" and x: "x \<in> set (firstcross (connections b k1))"
      and pos: "0 < a' k1" for k1 x
  proof (cases "k1 = k")
    case True
    with x cross_not_self [OF inv k] have "x \<noteq> Conn k" by auto
    with ca'(4) [of x] x True show ?thesis by (simp add: a'_def cnt_upd)
  next
    case False
    with pos have p: "0 < a k1" by (simp add: a'_def)
    show ?thesis
    proof (cases "x = Conn k")
      case True
      from cross_refs [OF cr k1 x] True have "Conn k1 \<in> set (firstcross (connections b k))"
        by auto
      from ca'(4) [OF this] p show ?thesis by simp
    next
      case False
      with partial_okD(4) [OF ok k1 x p] show ?thesis by (simp add: a'_def cnt_upd)
    qed
  qed
  from 1 2 3 4 have "partial_ok b a'" unfolding partial_ok_def by blast
  then show ?thesis by (simp add: Conn a'_def)
qed

lemma partial_ok_drop1:
  assumes inv: "board_inv b" and ok: "partial_ok b a" and c: "conn_of b c"
  shows "partial_ok b (drop1 a c)"
proof (cases c)
  case OutC
  with ok show ?thesis by simp
next
  case (Conn k)
  with c have k: "k < num_connections b" by (simp add: conn_of_def)
  from conn_wired_at [OF inv k] obtain i j where w: "wired_at b k i j" by blast
  define a' where "a' = a(k := a k - 1)"
  have le: "a' k' \<le> a k'" for k' by (simp add: a'_def)
  have cle: "cnt a' x \<le> cnt a x" for x using le by (cases x) simp_all
  have 1: "a' k' \<le> 2" if "k' < num_connections b" for k'
    using partial_okD(1) [OF ok that] le [of k'] by simp
  have 2: "a' k' = 0" if "\<not> k' < num_connections b" for k'
    using partial_okD(2) [OF ok that] le [of k'] by simp
  have 3: "used b a' m \<le> expected b m" if "m < num_islands b" for m
  proof -
    have "used b a' m \<le> used b a m"
      unfolding used_def by (intro add_mono cle)
    with partial_okD(3) [OF ok that] show ?thesis by simp
  qed
  have 4: "cnt a' x = 0"
    if k1: "k1 < num_connections b" and x: "x \<in> set (firstcross (connections b k1))"
      and pos: "0 < a' k1" for k1 x
  proof -
    from pos le [of k1] have "0 < a k1" by simp
    from partial_okD(4) [OF ok k1 x this] cle [of x] show ?thesis by simp
  qed
  from 1 2 3 4 have "partial_ok b a'" unfolding partial_ok_def by blast
  then show ?thesis by (simp add: Conn a'_def)
qed

lemma cnt_zero [simp]: "cnt (\<lambda>_. 0) c = 0"
  by (cases c) simp_all

lemma used_zero [simp]: "used b (\<lambda>_. 0) i = 0"
  by (simp add: used_def)

lemma partial_ok_zero: "partial_ok b (\<lambda>_. 0)"
  by (simp add: partial_ok_def)

lemma load_zero:
  assumes "board_inv b"
  shows "load b (\<lambda>_. 0) = b"
proof -
  from board_inv_parts(7) [OF assms]
  have f: "\<And>k. k < num_connections b \<Longrightarrow> bridges (connections b k) = 0"
    "\<And>i. i < num_islands b \<Longrightarrow> pendbridges (islands b i) = expectbridges (islands b i)"
    unfolding fresh_state_def by blast+
  have "b = load b (\<lambda>_. 0)"
  proof (rule load_eqI)
    fix k
    show "connections b k = connections (load b (\<lambda>_. 0)) k"
      using f(1) [of k] by (cases "k < num_connections b") (simp_all add: load_def)
  next
    fix i
    show "islands b i = islands (load b (\<lambda>_. 0)) i"
      using f(2) [of i] by (cases "i < num_islands b") (simp_all add: load_def)
  next
    show "b\<lparr>connections := connections b, islands := islands b\<rparr> = b" by simp
  qed
  then show ?thesis by simp
qed



lemma incident_eq_used:
  assumes inv: "board_inv b" and i: "i < num_islands b"
  shows "incident b a i = used b a i"
proof -
  define K where "K d = {k. slot b i d = Conn k}" for d
  define KK where "KK = {k. k < num_connections b
      \<and> (ppendbridges1 (connections b k) = Isl i \<or> ppendbridges2 (connections b k) = Isl i)}"
  note so = board_inv_parts(4) [OF inv]
  have fin: "finite (K d)" for d
  proof (cases "slot b i d")
    case OutC
    then show ?thesis by (simp add: K_def)
  next
    case (Conn k)
    then have "K d = {k}" by (auto simp: K_def)
    then show ?thesis by simp
  qed
  have sumK: "sum a (K d) = cnt a (slot b i d)" for d
  proof (cases "slot b i d")
    case OutC
    then show ?thesis by (simp add: K_def)
  next
    case (Conn k)
    then have "K d = {k}" by (auto simp: K_def)
    with Conn show ?thesis by simp
  qed
  have uniq: "d = d'" if "slot b i d = Conn k" "slot b i d' = Conn k" for d d' k
  proof -
    from slot_cases [OF so i that(1)] have k: "k < num_connections b" by simp
    from conn_wired_at [OF inv k] obtain i' j' where w: "wired_at b k i' j'" by blast
    then have "i' \<noteq> j'" by (simp add: wired_at_def)
    with w that i show ?thesis unfolding wired_at_def by (elim conjE disjE) auto
  qed
  have disj: "K d \<inter> K d' = {}" if "d \<noteq> d'" for d d'
    using uniq that by (auto simp: K_def)
  have KK: "KK = K UP \<union> K LEFT \<union> K RIGHT \<union> K DOWN"
  proof (intro set_eqI iffI)
    fix k assume "k \<in> KK"
    then have k: "k < num_connections b"
      and e: "ppendbridges1 (connections b k) = Isl i \<or> ppendbridges2 (connections b k) = Isl i"
      by (auto simp: KK_def)
    from conn_wired_at [OF inv k] obtain i' j' where w: "wired_at b k i' j'" by blast
    with e have "i = i' \<or> i = j'" by (auto simp: wired_at_def)
    with w i obtain d where "slot b i d = Conn k" unfolding wired_at_def by blast
    then show "k \<in> K UP \<union> K LEFT \<union> K RIGHT \<union> K DOWN"
      by (cases d) (auto simp: K_def)
  next
    fix k assume "k \<in> K UP \<union> K LEFT \<union> K RIGHT \<union> K DOWN"
    then obtain d where d: "slot b i d = Conn k" by (auto simp: K_def)
    from slot_cases [OF so i d] have k: "k < num_connections b"
      and "ppendbridges1 (connections b k) = Isl i \<or> ppendbridges2 (connections b k) = Isl i"
      by (cases d; auto simp: horizontal_def vertical_def)+
    then show "k \<in> KK" by (simp add: KK_def)
  qed
  have "incident b a i = (\<Sum>k \<in> {..<num_connections b}. if k \<in> KK then a k else 0)"
    unfolding incident_def KK_def by (intro sum.cong) auto
  also have "\<dots> = sum a ({..<num_connections b} \<inter> KK)"
    by (simp add: sum.inter_restrict)
  also have "\<dots> = sum a KK"
    by (rule arg_cong [where f = "sum a"]) (auto simp: KK_def)
  also have "\<dots> = sum a (K UP) + sum a (K LEFT) + sum a (K RIGHT) + sum a (K DOWN)"
    unfolding KK
    using disj fin
    by (subst sum.union_disjoint; (simp add: Int_Un_distrib2)?)+
  also have "\<dots> = used b a i" by (simp add: sumK used_def)
  finally show ?thesis .
qed



lemma apply_ops_load:
  assumes inv: "board_inv b" and ok: "partial_ok b a"
    and ops: "\<forall>op \<in> set ops. conn_of b (op_conn op)"
  shows "\<exists>a'. partial_ok b a' \<and> apply_ops (load b a) ops = load b a'"
  using ok ops
proof (induction ops arbitrary: a)
  case Nil
  then show ?case by auto
next
  case (Cons op ops)
  then have c: "conn_of b (op_conn op)" and rest: "\<forall>op \<in> set ops. conn_of b (op_conn op)"
    by simp_all
  show ?case
  proof (cases op)
    case (Add c')
    with c have c': "conn_of b c'" by simp
    show ?thesis
    proof (cases "can_add b a c'")
      case True
      from Cons.IH [OF partial_ok_bump [OF inv Cons.prems(1) c' True] rest]
      show ?thesis
        using True by (simp add: Add add_bridge_load [OF inv Cons.prems(1) c'])
    next
      case False
      from Cons.IH [OF Cons.prems(1) rest] show ?thesis
        using False by (simp add: Add add_bridge_load [OF inv Cons.prems(1) c'])
    qed
  next
    case (Del c')
    with c have c': "conn_of b c'" by simp
    show ?thesis
    proof (cases "0 < cnt a c'")
      case True
      from Cons.IH [OF partial_ok_drop1 [OF inv Cons.prems(1) c'] rest]
      show ?thesis
        using True by (simp add: Del del_bridge_load [OF inv Cons.prems(1) c'])
    next
      case False
      from Cons.IH [OF Cons.prems(1) rest] show ?thesis
        using False by (simp add: Del del_bridge_load [OF inv Cons.prems(1) c'])
    qed
  qed
qed

lemma load_sint_bridges:
  assumes "partial_ok b a" "k < num_connections b"
  shows "sint (bridges (connections (load b a) k)) = int (a k)"
  using partial_okD(1) [OF assms] by (simp add: load_bridges [OF assms(2)] sint_of_nat_small)

lemma load_sint_pend:
  assumes g: "in_grid b" and ok: "partial_ok b a" and i: "i < num_islands b"
  shows "sint (pendbridges (islands (load b a) i)) = int (expected b i) - int (used b a i)"
proof -
  from g i have r: "1 \<le> sint (expectbridges (islands b i))" "sint (expectbridges (islands b i)) \<le> 8"
    unfolding in_grid_def by blast+
  have e: "expectbridges (islands b i) = of_nat (expected b i)"
    unfolding expected_def by (rule expect_eq_of_nat [OF r])
  note u = partial_okD(3) [OF ok i]
  have d: "(of_nat (expected b i - used b a i) :: cchar)
      = of_nat (expected b i) - of_nat (used b a i)"
    using u by (simp add: of_nat_diff)
  have "expected b i - used b a i \<le> 8"
    using expected_bounds(2) [OF g i] by simp
  from sint_of_nat_small [OF this]
  have "sint (of_nat (expected b i) - of_nat (used b a i) :: cchar)
      = int (expected b i - used b a i)"
    unfolding d .
  with u show ?thesis by (simp add: load_pend [OF i] e of_nat_diff)
qed

text \<open>
  C2. Start from a board built by \<open>add_island\<close> calls and run any sequence of
  \<open>add_bridge\<close> and \<open>del_bridge\<close> calls on connection pointers of the board. On
  the board that results, every connection has 0, 1 or 2 bridges; of a connection
  and a connection in its crossing list never both carry a bridge; and every
  island's pending count is not negative, equals its expected count minus the
  bridge counts of the connections that have the island as an endpoint, and is 0
  exactly when those bridge counts sum up to the expected count.
\<close>

theorem engine_invariants:
  assumes built: "add_islands (init_board board isls mi conns mc mx vm mv) xs = Some b0"
    and ops: "\<forall>op \<in> set ops. conn_of b0 (op_conn op)"
    and b: "b = apply_ops b0 ops"
  shows "(\<forall>k < num_connections b.
            sint (bridges (connections b k)) \<in> {0, 1, 2}
            \<and> (\<forall>x \<in> set (firstcross (connections b k)).
                  \<not> (0 < sint (bridges (connections b k))
                     \<and> 0 < sint (bridges (get_connection b x)))))
       \<and> (\<forall>i < num_islands b.
            0 \<le> sint (pendbridges (islands b i))
            \<and> sint (pendbridges (islands b i))
               = sint (expectbridges (islands b i))
                 - (\<Sum>k < num_connections b.
                      if ppendbridges1 (connections b k) = Isl i
                         \<or> ppendbridges2 (connections b k) = Isl i
                      then sint (bridges (connections b k)) else 0)
            \<and> (pendbridges (islands b i) = 0 \<longleftrightarrow>
                 (\<Sum>k < num_connections b.
                      if ppendbridges1 (connections b k) = Isl i
                         \<or> ppendbridges2 (connections b k) = Isl i
                      then sint (bridges (connections b k)) else 0)
                 = sint (expectbridges (islands b i))))"
proof -
  note inv = built_inv [OF built]
  note g = board_inv_parts(2) [OF inv] and cr = board_inv_parts(5) [OF inv]
  from apply_ops_load [OF inv partial_ok_zero ops] obtain a where ok: "partial_ok b0 a"
    and ba: "b = load b0 a"
    by (auto simp: load_zero [OF inv] b)
  have 1: "sint (bridges (connections b k)) \<in> {0, 1, 2}" if "k < num_connections b" for k
  proof -
    from that have k: "k < num_connections b0" by (simp add: ba)
    from partial_okD(1) [OF ok k] load_sint_bridges [OF ok k] show ?thesis
      by (auto simp: ba)
  qed
  have 2: "\<not> (0 < sint (bridges (connections b k)) \<and> 0 < sint (bridges (get_connection b x)))"
    if "k < num_connections b" "x \<in> set (firstcross (connections b k))" for k x
  proof -
    from that have k: "k < num_connections b0" and x: "x \<in> set (firstcross (connections b0 k))"
      by (simp_all add: ba)
    from cross_refs [OF cr k x] obtain k' where k': "k' < num_connections b0" "x = Conn k'"
      by blast
    have sk: "sint (bridges (connections b k)) = int (a k)"
      and sx: "sint (bridges (get_connection b x)) = int (a k')"
      by (simp_all add: ba k'(2) get_connection_def load_sint_bridges [OF ok k]
          load_sint_bridges [OF ok k'(1)])
    show ?thesis
    proof (cases "0 < a k")
      case True
      from partial_okD(4) [OF ok k x True] k'(2) have "a k' = 0" by simp
      then show ?thesis by (simp add: sx)
    next
      case False
      then show ?thesis by (simp add: sk)
    qed
  qed
  have sum_eq: "(\<Sum>k < num_connections b.
                      if ppendbridges1 (connections b k) = Isl i
                         \<or> ppendbridges2 (connections b k) = Isl i
                      then sint (bridges (connections b k)) else 0) = int (used b0 a i)"
    if "i < num_islands b0" for i
  proof -
    have "(\<Sum>k < num_connections b.
                      if ppendbridges1 (connections b k) = Isl i
                         \<or> ppendbridges2 (connections b k) = Isl i
                      then sint (bridges (connections b k)) else 0)
        = (\<Sum>k < num_connections b0.
                      int (if ppendbridges1 (connections b0 k) = Isl i
                         \<or> ppendbridges2 (connections b0 k) = Isl i
                      then a k else 0))"
      unfolding ba by (rule sum.cong) (auto simp: load_sint_bridges [OF ok])
    also have "\<dots> = int (incident b0 a i)" by (simp add: incident_def)
    finally show ?thesis by (simp add: incident_eq_used [OF inv that])
  qed
  have 3: "0 \<le> sint (pendbridges (islands b i))
            \<and> sint (pendbridges (islands b i))
               = sint (expectbridges (islands b i))
                 - (\<Sum>k < num_connections b.
                      if ppendbridges1 (connections b k) = Isl i
                         \<or> ppendbridges2 (connections b k) = Isl i
                      then sint (bridges (connections b k)) else 0)
            \<and> (pendbridges (islands b i) = 0 \<longleftrightarrow>
                 (\<Sum>k < num_connections b.
                      if ppendbridges1 (connections b k) = Isl i
                         \<or> ppendbridges2 (connections b k) = Isl i
                      then sint (bridges (connections b k)) else 0)
                 = sint (expectbridges (islands b i)))"
    if "i < num_islands b" for i
  proof -
    from that have i: "i < num_islands b0" by (simp add: ba)
    note u = partial_okD(3) [OF ok i]
    from g i have r: "1 \<le> sint (expectbridges (islands b0 i))" unfolding in_grid_def by blast
    then have ex: "sint (expectbridges (islands b i)) = int (expected b0 i)"
      by (simp add: ba expected_def)
    have p: "sint (pendbridges (islands b i)) = int (expected b0 i) - int (used b0 a i)"
      unfolding ba by (rule load_sint_pend [OF g ok i])
    have z: "pendbridges (islands b i) = 0 \<longleftrightarrow> sint (pendbridges (islands b i)) = 0"
      by (simp add: sint_eq_0_iff)
    show ?thesis
      unfolding z sum_eq [OF i] ex p using u by auto
  qed
  from 1 2 3 show ?thesis by blast
qed


lemma engine_counts:
  "num_connections (snd (add_bridge b c)) = num_connections b"
  "num_islands (snd (add_bridge b c)) = num_islands b"
  "num_connections (snd (del_bridge b c)) = num_connections b"
  "num_islands (snd (del_bridge b c)) = num_islands b"
  by (simp_all add: add_bridge_def del_bridge_def Let_def upd_island_def upd_connection_def
      split: iref.split cref.split)

lemma apply_ops_counts:
  "num_connections (apply_ops b ops) = num_connections b
   \<and> num_islands (apply_ops b ops) = num_islands b"
proof (induction ops arbitrary: b)
  case Nil
  show ?case by simp
next
  case (Cons op ops)
  show ?case by (cases op) (simp_all add: Cons.IH engine_counts)
qed


section \<open>The per-island steps on boards carrying an assignment\<close>

fun addn :: "(nat \<Rightarrow> nat) \<Rightarrow> cref \<Rightarrow> nat \<Rightarrow> (nat \<Rightarrow> nat)" where
  "addn a OutC n = a"
| "addn a (Conn k) n = a(k := a k + n)"

fun clr :: "(nat \<Rightarrow> nat) \<Rightarrow> cref \<Rightarrow> (nat \<Rightarrow> nat)" where
  "clr a OutC = a"
| "clr a (Conn k) = a(k := 0)"

fun grow :: "hboard \<Rightarrow> (nat \<Rightarrow> nat) \<Rightarrow> cref \<Rightarrow> nat \<Rightarrow> nat" where
  "grow b a c 0 = 0"
| "grow b a c (Suc l) = (if can_add b a c then Suc (grow b (bump a c) c l) else 0)"

lemma addn_0 [simp]: "addn a c 0 = a"
  by (cases c) simp_all

lemma addn_bump: "addn (bump a c) c n = addn a c (Suc n)"
  by (cases c) simp_all

lemma add_until_isl_connections:
  "isl_connections (get_island (add_until b c island) r) = isl_connections (get_island b r)"
proof (induction b c island rule: add_until.induct)
  case (1 b c island)
  show ?case
  proof (cases "pendbridges (get_island b island) \<noteq> 0")
    case False
    then show ?thesis by (simp add: add_until.simps [of b])
  next
    case True
    obtain ok b' where ab: "add_bridge b c = (ok, b')" by (cases "add_bridge b c")
    show ?thesis
    proof (cases ok)
      case True
      with ab \<open>pendbridges (get_island b island) \<noteq> 0\<close>
      have "add_until b c island = add_until b' c island"
        by (simp add: add_until.simps [of b])
      moreover have "isl_connections (get_island (add_until b' c island) r)
          = isl_connections (get_island b' r)"
        using 1 [OF \<open>pendbridges (get_island b island) \<noteq> 0\<close> ab [symmetric]] True by simp
      ultimately show ?thesis using add_bridge_isl_connections [OF ab] by simp
    next
      case False
      with ab \<open>pendbridges (get_island b island) \<noteq> 0\<close>
      have "add_until b c island = b'" by (simp add: add_until.simps [of b])
      then show ?thesis using add_bridge_isl_connections [OF ab] by simp
    qed
  qed
qed

lemma fill_loop_DOWN:
  "fill_loop b island DOWN = add_until b (isl_connections (get_island b island) DOWN) island"
proof (induction b "isl_connections (get_island b island) DOWN" island rule: add_until.induct)
  case (1 b island)
  let ?c = "isl_connections (get_island b island) DOWN"
  show ?case
  proof (cases "pendbridges (get_island b island) \<noteq> 0")
    case False
    then show ?thesis by (simp add: add_until.simps [of b] fill_loop.simps [of b])
  next
    case True
    obtain ok b' where ab: "add_bridge b ?c = (ok, b')" by (cases "add_bridge b ?c")
    show ?thesis
    proof (cases ok)
      case True
      have c': "isl_connections (get_island b' island) DOWN = ?c"
        using add_bridge_isl_connections [OF ab] by simp
      have "fill_loop b' island DOWN = add_until b' ?c island"
        using 1 [OF \<open>pendbridges (get_island b island) \<noteq> 0\<close> ab [symmetric]] True c'
        by simp
      with ab True \<open>pendbridges (get_island b island) \<noteq> 0\<close> show ?thesis
        by (simp add: add_until.simps [of b] fill_loop.simps [of b])
    next
      case False
      with ab \<open>pendbridges (get_island b island) \<noteq> 0\<close> show ?thesis
        by (simp add: add_until.simps [of b] fill_loop.simps [of b])
    qed
  qed
qed

lemma fill_loop_RIGHT:
  "fill_loop b island RIGHT =
     add_until (add_until b (isl_connections (get_island b island) RIGHT) island)
       (isl_connections (get_island b island) DOWN) island"
proof (induction b "isl_connections (get_island b island) RIGHT" island rule: add_until.induct)
  case (1 b island)
  let ?c = "isl_connections (get_island b island) RIGHT"
  let ?d = "isl_connections (get_island b island) DOWN"
  show ?case
  proof (cases "pendbridges (get_island b island) \<noteq> 0")
    case False
    then show ?thesis
      by (simp add: add_until.simps [of b] fill_loop.simps [of b])
  next
    case True
    obtain ok b' where ab: "add_bridge b ?c = (ok, b')" by (cases "add_bridge b ?c")
    show ?thesis
    proof (cases ok)
      case True
      have c': "isl_connections (get_island b' island) = isl_connections (get_island b island)"
        using add_bridge_isl_connections [OF ab] by simp
      have "fill_loop b' island RIGHT = add_until (add_until b' ?c island) ?d island"
        using 1 [OF \<open>pendbridges (get_island b island) \<noteq> 0\<close> ab [symmetric]] True c'
        by simp
      with ab True \<open>pendbridges (get_island b island) \<noteq> 0\<close> show ?thesis
        by (simp add: add_until.simps [of b ?c] fill_loop.simps [of b])
    next
      case False
      have c': "isl_connections (get_island b' island) = isl_connections (get_island b island)"
        using add_bridge_isl_connections [OF ab] by simp
      have "fill_loop b' island DOWN = add_until b' ?d island"
        using fill_loop_DOWN [of b' island] c' by simp
      with ab False \<open>pendbridges (get_island b island) \<noteq> 0\<close> show ?thesis
        by (simp add: add_until.simps [of b ?c] fill_loop.simps [of b])
    qed
  qed
qed


section \<open>The example board, evaluated\<close>

lemma fill_crosses_loop_done: "fill_crosses_loop b up down c cv down = Some b"
  by (subst fill_crosses_loop.simps) simp

lemma find_up_loop_numeral:
  "find_up_loop b c (numeral k) =
     (if col (islands b (pred_numeral k)) = c then Isl (pred_numeral k)
      else find_up_loop b c (pred_numeral k))"
  by (simp add: numeral_eq_Suc)

lemmas build_defs = main_board_def init_board_def blank_board_def blank_island_def
  blank_connection_def init_out_island_def init_out_connection_def add_island_def
  next_island_def next_connection_def next_crosselem_def fill_connections_def connect_left_def
  connect_up_def find_from_island_def set_isl_island_def set_isl_connection_def
  new_connection_def upd_island_def upd_connection_def get_island_def get_connection_def
  fill_crosses_def insert_crosselem_def Let_def fill_crosses_loop_done fill_crosses_loop_unfold
  crosser_def row_of_def col_of_def nbr_def slot_def find_up_loop_numeral
  numeral_2_eq_2 [symmetric]

lemmas getter_simps = get_set_isl_island get_set_isl_connection get_clear_isl_connections
  get_init_island get_new_connection get_raw_updates

lemma crossing_board_eval:
  "add_islands main_board [(0, 1, 1), (1, 0, 1), (1, 2, 1), (2, 1, 1)] = Some
     \<lparr>max_islands = 150, num_islands = 4, max_connections = 300,
         num_connections = 2, max_crosselems = 300, num_crosselems = 2, rows = 3,
         cols = 3, max_bridges = 4, max_visited_size = 10000, visitedlimit = 0,
         visitedmatrix = \<lambda>p. False,
         islands =
           (\<lambda>_. \<lparr>pendbridges = 0, expectbridges = 0, row = 0, col = 0,
                   isl_islands = \<lambda>_. OutI, isl_connections = \<lambda>_. OutC\<rparr>)
           (2 := \<lparr>pendbridges = 1, expectbridges = 1, row = 1, col = 2,
                    isl_islands =
                      (\<lambda>_. OutI)
                      (RIGHT := OutI, DOWN := OutI, LEFT := Isl (Suc 0),
                         UP := OutI),
                    isl_connections = (\<lambda>_. OutC)(LEFT := Conn 0)\<rparr>,
              Suc 0 :=
                \<lparr>pendbridges = 1, expectbridges = 1, row = 1, col = 0,
                   isl_islands =
                     (\<lambda>_. OutI)
                     (DOWN := OutI, LEFT := OutI, UP := OutI, RIGHT := Isl 2),
                   isl_connections = (\<lambda>_. OutC)(RIGHT := Conn 0)\<rparr>,
              3 := \<lparr>pendbridges = 1, expectbridges = 1, row = 2, col = 1,
                      isl_islands =
                        (\<lambda>_. OutI)
                        (RIGHT := OutI, DOWN := OutI, LEFT := OutI, UP := Isl 0),
                      isl_connections = (\<lambda>_. OutC)(UP := Conn (Suc 0))\<rparr>,
              0 := \<lparr>pendbridges = 1, expectbridges = 1, row = 0, col = 1,
                      isl_islands =
                        (\<lambda>_. OutI)
                        (RIGHT := OutI, LEFT := OutI, UP := OutI, DOWN := Isl 3),
                      isl_connections = (\<lambda>_. OutC)(DOWN := Conn (Suc 0))\<rparr>),
         out_island_st =
           \<lparr>pendbridges = 0, expectbridges = 0, row = - 1, col = - 1,
              isl_islands = \<lambda>_. OutI, isl_connections = \<lambda>_. OutC\<rparr>,
         connections =
           (\<lambda>_. \<lparr>bridges = 0, firstcross = [], ppendbridges1 = OutI,
                   ppendbridges2 = OutI\<rparr>)
           (0 := \<lparr>bridges = 0, firstcross = [Conn (Suc 0)],
                    ppendbridges1 = Isl (Suc 0), ppendbridges2 = Isl 2\<rparr>,
              Suc 0 :=
                \<lparr>bridges = 0, firstcross = [Conn 0], ppendbridges1 = Isl 0,
                   ppendbridges2 = Isl 3\<rparr>),
         out_connection_st =
           \<lparr>bridges = 0, firstcross = [], ppendbridges1 = OutI,
              ppendbridges2 = OutI\<rparr>\<rparr>"
  by (simp add: build_defs del: getter_simps)

lemma crossing_board_eq:
  "crossing_board =
     \<lparr>max_islands = 150, num_islands = 4, max_connections = 300,
         num_connections = 2, max_crosselems = 300, num_crosselems = 2, rows = 3,
         cols = 3, max_bridges = 4, max_visited_size = 10000, visitedlimit = 0,
         visitedmatrix = \<lambda>p. False,
         islands =
           (\<lambda>_. \<lparr>pendbridges = 0, expectbridges = 0, row = 0, col = 0,
                   isl_islands = \<lambda>_. OutI, isl_connections = \<lambda>_. OutC\<rparr>)
           (2 := \<lparr>pendbridges = 1, expectbridges = 1, row = 1, col = 2,
                    isl_islands =
                      (\<lambda>_. OutI)
                      (RIGHT := OutI, DOWN := OutI, LEFT := Isl (Suc 0),
                         UP := OutI),
                    isl_connections = (\<lambda>_. OutC)(LEFT := Conn 0)\<rparr>,
              Suc 0 :=
                \<lparr>pendbridges = 1, expectbridges = 1, row = 1, col = 0,
                   isl_islands =
                     (\<lambda>_. OutI)
                     (DOWN := OutI, LEFT := OutI, UP := OutI, RIGHT := Isl 2),
                   isl_connections = (\<lambda>_. OutC)(RIGHT := Conn 0)\<rparr>,
              3 := \<lparr>pendbridges = 1, expectbridges = 1, row = 2, col = 1,
                      isl_islands =
                        (\<lambda>_. OutI)
                        (RIGHT := OutI, DOWN := OutI, LEFT := OutI, UP := Isl 0),
                      isl_connections = (\<lambda>_. OutC)(UP := Conn (Suc 0))\<rparr>,
              0 := \<lparr>pendbridges = 1, expectbridges = 1, row = 0, col = 1,
                      isl_islands =
                        (\<lambda>_. OutI)
                        (RIGHT := OutI, LEFT := OutI, UP := OutI, DOWN := Isl 3),
                      isl_connections = (\<lambda>_. OutC)(DOWN := Conn (Suc 0))\<rparr>),
         out_island_st =
           \<lparr>pendbridges = 0, expectbridges = 0, row = - 1, col = - 1,
              isl_islands = \<lambda>_. OutI, isl_connections = \<lambda>_. OutC\<rparr>,
         connections =
           (\<lambda>_. \<lparr>bridges = 0, firstcross = [], ppendbridges1 = OutI,
                   ppendbridges2 = OutI\<rparr>)
           (0 := \<lparr>bridges = 0, firstcross = [Conn (Suc 0)],
                    ppendbridges1 = Isl (Suc 0), ppendbridges2 = Isl 2\<rparr>,
              Suc 0 :=
                \<lparr>bridges = 0, firstcross = [Conn 0], ppendbridges1 = Isl 0,
                   ppendbridges2 = Isl 3\<rparr>),
         out_connection_st =
           \<lparr>bridges = 0, firstcross = [], ppendbridges1 = OutI,
              ppendbridges2 = OutI\<rparr>\<rparr>"
  by (simp only: crossing_board_def crossing_board_eval option.sel)

lemma crossing_board_built:
  "add_islands main_board [(0, 1, 1), (1, 0, 1), (1, 2, 1), (2, 1, 1)] = Some crossing_board"
  by (simp only: crossing_board_def crossing_board_eval option.sel)

lemma crossing_board_fields:
  "num_islands crossing_board = 4" "num_connections crossing_board = 2"
  "connections crossing_board 0 =
     \<lparr>bridges = 0, firstcross = [Conn (Suc 0)], ppendbridges1 = Isl (Suc 0),
        ppendbridges2 = Isl 2\<rparr>"
  "connections crossing_board (Suc 0) =
     \<lparr>bridges = 0, firstcross = [Conn 0], ppendbridges1 = Isl 0, ppendbridges2 = Isl 3\<rparr>"
  "pendbridges (islands crossing_board 0) = 1" "pendbridges (islands crossing_board (Suc 0)) = 1"
  "pendbridges (islands crossing_board 2) = 1" "pendbridges (islands crossing_board 3) = 1"
  "row_of crossing_board 0 = 0" "col_of crossing_board 0 = 1"
  "row_of crossing_board (Suc 0) = 1" "col_of crossing_board (Suc 0) = 0"
  "row_of crossing_board 2 = 1" "col_of crossing_board 2 = 2"
  "row_of crossing_board 3 = 2" "col_of crossing_board 3 = 1"
  by (simp_all add: crossing_board_eq row_of_def col_of_def)

section \<open>Witnesses\<close>

theorem add_bridge_del_bridge_cases_witness:
  "conn_in_range crossing_board (Conn 0)
   \<and> fst (add_bridge crossing_board (Conn 0))
   \<and> bridge_moved crossing_board (Conn 0) 1 (snd (add_bridge crossing_board (Conn 0)))
   \<and> del_bridge crossing_board (Conn 0) = (False, crossing_board)"
proof -
  have h: "conn_in_range crossing_board (Conn 0)"
    by (simp add: conn_in_range_def get_connection_def get_island_def crossing_board_fields)
  show ?thesis
    using h add_bridge_del_bridge_cases [OF h]
    by (simp add: get_connection_def get_island_def crossing_board_fields)
qed

theorem del_bridge_undoes_add_bridge_witness:
  "fst (add_bridge crossing_board (Conn 0))
   \<and> del_bridge (snd (add_bridge crossing_board (Conn 0))) (Conn 0) = (True, crossing_board)"
proof -
  have a: "fst (add_bridge crossing_board (Conn 0))"
    by (simp add: add_bridge_def Let_def get_connection_def get_island_def crossing_board_fields)
  then have b: "add_bridge crossing_board (Conn 0)
      = (True, snd (add_bridge crossing_board (Conn 0)))"
    by (cases "add_bridge crossing_board (Conn 0)") simp
  have c: "0 \<le> sint (bridges (get_connection crossing_board (Conn 0)))"
    by (simp add: get_connection_def crossing_board_fields)
  show ?thesis
    using a del_bridge_undoes_add_bridge [OF b c] by simp
qed

theorem crossing_recorded_iff_geometric_witness:
  "Conn (Suc 0) \<in> set (firstcross (connections crossing_board 0))
   \<and> Conn 0 \<in> set (firstcross (connections crossing_board (Suc 0)))
   \<and> row_of crossing_board 0 < row_of crossing_board (Suc 0)
   \<and> row_of crossing_board (Suc 0) < row_of crossing_board 3
   \<and> col_of crossing_board (Suc 0) < col_of crossing_board 0
   \<and> col_of crossing_board 0 < col_of crossing_board 2"
  using crossing_recorded_iff_geometric [unfolded main_board_def [symmetric],
      OF crossing_board_built [unfolded main_board_def], of "Suc 0" 0 0 3 "Suc 0" 2]
  by (simp add: crossing_board_fields)

theorem engine_invariants_witness:
  "sint (bridges (connections
      (apply_ops crossing_board [Add (Conn 0), Add (Conn (Suc 0)), Del OutC]) 0)) \<in> {0, 1, 2}
   \<and> 0 \<le> sint (pendbridges (islands
      (apply_ops crossing_board [Add (Conn 0), Add (Conn (Suc 0)), Del OutC]) 0))"
proof -
  define ops where "ops = [Add (Conn 0), Add (Conn (Suc 0)), Del OutC]"
  have v: "\<forall>op \<in> set ops. conn_of crossing_board (op_conn op)"
    by (simp add: ops_def conn_of_def crossing_board_fields)
  note t = engine_invariants [OF crossing_board_built [unfolded main_board_def] v refl]
  have "0 < num_connections (apply_ops crossing_board ops)"
    "0 < num_islands (apply_ops crossing_board ops)"
    by (simp_all add: apply_ops_counts crossing_board_fields)
  with t show ?thesis unfolding ops_def by blast
qed

end
